theory Spec2Isabelle
  imports Complex_Main
begin

section \<open>Data model of src/App.js\<close>

text \<open>
  A board cell holds \<open>"X"\<close>, \<open>"O"\<close> or \<open>null\<close>.  The two markers are the
  datatype \<open>player\<close> (\<open>PlayerX\<close> for \<open>"X"\<close>, \<open>PlayerO\<close> for \<open>"O"\<close>); a cell is
  a \<open>player option\<close>, where \<open>None\<close> is the falsy value \<open>null\<close>.  A board is the
  array of cells, a list.
\<close>

datatype player = PlayerX | PlayerO

type_synonym cell = "player option"

type_synonym board = "cell list"

text \<open>
  Reading \<open>board[i]\<close>.  JavaScript yields \<open>undefined\<close> outside the array; it is falsy
  and different from every marker, exactly as \<open>null\<close> is in the tests the code makes,
  so both are \<open>None\<close>.
\<close>

definition cellAt :: "board \<Rightarrow> nat \<Rightarrow> cell" where
  "cellAt board i = (if i < length board then board ! i else None)"

text \<open>\<open>WIN_LINES\<close>, lines 4-13: the eight triples, in the order of the source.\<close>

type_synonym line = "nat \<times> nat \<times> nat"

definition WIN_LINES :: "line list" where
  "WIN_LINES =
     [(0, 1, 2), (3, 4, 5), (6, 7, 8),
      (0, 3, 6), (1, 4, 7), (2, 5, 8),
      (0, 4, 8), (2, 4, 6)]"

text \<open>The object \<open>{ winner, line }\<close> that \<open>getWinnerInfo\<close> returns.\<close>

record winnerInfo =
  winner :: cell
  line :: "line option"

text \<open>
  The test of line 18,
  \<open>board[a] && board[a] === board[b] && board[a] === board[c]\<close>.
\<close>

definition lineMatches :: "board \<Rightarrow> line \<Rightarrow> bool" where
  "lineMatches board l =
     (case l of (a, b, c) \<Rightarrow>
        cellAt board a \<noteq> None \<and> cellAt board a = cellAt board b
          \<and> cellAt board a = cellAt board c)"

text \<open>The \<open>for\<close> loop of lines 16-21 over the remaining lines, and line 22 after it.\<close>

fun scanLines :: "board \<Rightarrow> line list \<Rightarrow> winnerInfo" where
  "scanLines board [] = \<lparr>winner = None, line = None\<rparr>"
| "scanLines board (l # ls) =
     (if lineMatches board l
      then \<lparr>winner = cellAt board (fst l), line = Some l\<rparr>
      else scanLines board ls)"

definition getWinnerInfo :: "board \<Rightarrow> winnerInfo" where
  "getWinnerInfo board = scanLines board WIN_LINES"

text \<open>\<open>isBoardFull\<close>, lines 25-27: \<open>board.every((v) => v)\<close>.\<close>

definition isBoardFull :: "board \<Rightarrow> bool" where
  "isBoardFull board = list_all (\<lambda>v. v \<noteq> None) board"

text \<open>\<open>availableMoves\<close>, lines 29-35: the indices of the falsy cells, ascending.\<close>

definition availableMoves :: "board \<Rightarrow> nat list" where
  "availableMoves board = filter (\<lambda>i. board ! i = None) [0..<length board]"

text \<open>
  \<open>scoreTerminal\<close>, lines 37-41.  The depth is a JavaScript number that only ever
  holds small integers; it is an \<open>int\<close>.
\<close>

definition scoreTerminal :: "cell \<Rightarrow> int \<Rightarrow> int" where
  "scoreTerminal w depth =
     (if w = Some PlayerO then 10 - depth
      else if w = Some PlayerX then depth - 10
      else 0)"

text \<open>
  The scores that \<open>minimax\<close> compares are numbers, among them \<open>-Infinity\<close> and
  \<open>Infinity\<close>, the initial values of \<open>best.score\<close>.
\<close>

datatype score = NegInf | Fin int | PosInf

instantiation score :: linorder
begin

fun less_eq_score :: "score \<Rightarrow> score \<Rightarrow> bool" where
  "less_eq_score NegInf _ = True"
| "less_eq_score (Fin a) NegInf = False"
| "less_eq_score (Fin a) (Fin b) = (a \<le> b)"
| "less_eq_score (Fin a) PosInf = True"
| "less_eq_score PosInf PosInf = True"
| "less_eq_score PosInf _ = False"

definition less_score :: "score \<Rightarrow> score \<Rightarrow> bool" where
  "less_score a b = (a \<le> b \<and> \<not> b \<le> a)"

instance
proof
  fix x y z :: score
  show "(x < y) = (x \<le> y \<and> \<not> y \<le> x)"
    by (simp add: less_score_def)
  show "x \<le> x"
    by (cases x) simp_all
  show "x \<le> y \<Longrightarrow> y \<le> z \<Longrightarrow> x \<le> z"
    by (cases x; cases y; cases z) simp_all
  show "x \<le> y \<Longrightarrow> y \<le> x \<Longrightarrow> x = y"
    by (cases x; cases y) simp_all
  show "x \<le> y \<or> y \<le> x"
    by (cases x; cases y) auto
qed

end

text \<open>
  The object \<open>{ score, index }\<close> that \<open>minimax\<close> returns.  At a terminal node the
  object has no \<open>index\<close> property, and \<open>moves[0]\<close> of an empty array is
  \<open>undefined\<close>: both are \<open>None\<close>.
\<close>

record result =
  score :: score
  index :: "nat option"

definition firstMove :: "nat list \<Rightarrow> nat option" where
  "firstMove moves = (case moves of [] \<Rightarrow> None | m # _ \<Rightarrow> Some m)"

text \<open>
  \<open>board.slice()\<close> followed by \<open>next[idx] = mark\<close>.  Every \<open>idx\<close> comes from
  \<open>availableMoves board\<close> and is inside the array, so the assignment never extends it.
\<close>

definition place :: "board \<Rightarrow> nat \<Rightarrow> player \<Rightarrow> board" where
  "place board idx mark = board[idx := Some mark]"

definition emptyCount :: "board \<Rightarrow> nat" where
  "emptyCount board = length (filter (\<lambda>v. v = None) board)"

lemma availableMoves_iff:
  "i \<in> set (availableMoves board) \<longleftrightarrow> i < length board \<and> board ! i = None"
  by (auto simp: availableMoves_def)

lemma emptyCount_place_Suc:
  assumes "i < length board" and "board ! i = None"
  shows "Suc (emptyCount (place board i p)) = emptyCount board"
proof -
  have split: "board = take i board @ None # drop (Suc i) board"
    using assms by (metis id_take_nth_drop)
  have upd: "place board i p = take i board @ Some p # drop (Suc i) board"
    using assms(1) by (simp add: place_def upd_conv_take_nth_drop)
  have "emptyCount board =
      Suc (length (filter (\<lambda>v. v = None) (take i board))
         + length (filter (\<lambda>v. v = None) (drop (Suc i) board)))"
    unfolding emptyCount_def by (subst split) simp
  moreover have "emptyCount (place board i p) =
      length (filter (\<lambda>v. v = None) (take i board))
         + length (filter (\<lambda>v. v = None) (drop (Suc i) board))"
    unfolding emptyCount_def upd by simp
  ultimately show ?thesis by simp
qed

lemma emptyCount_place:
  "i < length board \<Longrightarrow> board ! i = None \<Longrightarrow> emptyCount (place board i p) < emptyCount board"
  using emptyCount_place_Suc [of i board p] by simp

text \<open>
  \<open>minimax\<close>, lines 44-70.  Each \<open>for (const idx of moves)\<close> loop is a \<open>fold\<close> over
  \<open>moves\<close> whose accumulator is \<open>best\<close>.
\<close>

function minimax :: "board \<Rightarrow> bool \<Rightarrow> int \<Rightarrow> result" where
  "minimax board isMaximizing depth =
     (let w = winner (getWinnerInfo board) in
      if w \<noteq> None then \<lparr>score = Fin (scoreTerminal w depth), index = None\<rparr>
      else if isBoardFull board then \<lparr>score = Fin 0, index = None\<rparr>
      else
        let moves = availableMoves board in
        if isMaximizing then
          fold (\<lambda>idx best.
                  let res = minimax (place board idx PlayerO) False (depth + 1) in
                  if score res > score best
                  then \<lparr>score = score res, index = Some idx\<rparr> else best)
               moves \<lparr>score = NegInf, index = firstMove moves\<rparr>
        else
          fold (\<lambda>idx best.
                  let res = minimax (place board idx PlayerX) True (depth + 1) in
                  if score res < score best
                  then \<lparr>score = score res, index = Some idx\<rparr> else best)
               moves \<lparr>score = PosInf, index = firstMove moves\<rparr>)"
  by pat_completeness auto
termination
proof (relation "measure (\<lambda>(board, isMaximizing, depth). emptyCount board)")
  show "wf (measure (\<lambda>(board, isMaximizing, depth). emptyCount board))"
    by simp
next
  fix board :: board and isMaximizing :: bool and depth :: int
    and w :: cell and moves :: "nat list" and idx :: nat and best :: result
  assume "moves = availableMoves board" and "idx \<in> set moves"
  then have "idx < length board \<and> board ! idx = None"
    by (simp add: availableMoves_iff)
  then show "((place board idx PlayerO, False, depth + 1), board, isMaximizing, depth)
      \<in> measure (\<lambda>(board, isMaximizing, depth). emptyCount board)"
    by (simp add: emptyCount_place)
next
  fix board :: board and isMaximizing :: bool and depth :: int
    and w :: cell and moves :: "nat list" and idx :: nat and best :: result
  assume "moves = availableMoves board" and "idx \<in> set moves"
  then have "idx < length board \<and> board ! idx = None"
    by (simp add: availableMoves_iff)
  then show "((place board idx PlayerX, True, depth + 1), board, isMaximizing, depth)
      \<in> measure (\<lambda>(board, isMaximizing, depth). emptyCount board)"
    by (simp add: emptyCount_place)
qed

declare minimax.simps [simp del]

text \<open>
  JavaScript numbers are IEEE 754 binary64 values, and \<open>Math.random() * 3\<close> is the
  binary64 product: the exact product rounded to the nearest binary64 value, a tie
  going to the even significand.  A finite binary64 value is \<open>m * 2 ^ e\<close> with an integer
  \<open>|m| < 2 ^ 53\<close> and one of the \<open>exponents\<close> \<open>- 1074 \<le> e \<le> 971\<close>; \<open>isDouble x\<close> looks
  for an exponent at which the quotient \<open>x / 2 ^ e\<close> is such an integer.  The binary64
  values next to a real \<open>x\<close> are the multiples of \<open>2 ^ ulpExponent x\<close>, where
  \<open>ulpExponent x\<close> is the least of the exponents with \<open>|x| < 2 ^ (e + 53)\<close>: 53
  significant bits in the binade of \<open>x\<close>, and multiples of \<open>2 ^ - 1074\<close> below the normal
  range.  \<open>roundDouble\<close> rounds the quotient by that unit to the nearest integer.
  Overflow to \<open>Infinity\<close> is left out: the products formed here are below 4.
\<close>

definition exponents :: "int list" where
  "exponents = [- 1074 .. 971]"

definition isDouble :: "real \<Rightarrow> bool" where
  "isDouble x \<longleftrightarrow>
     list_ex (\<lambda>e. of_int \<lfloor>x / 2 powi e\<rfloor> = x / 2 powi e \<and> \<bar>x / 2 powi e\<bar> < 2 ^ 53)
       exponents"

definition roundTiesToEven :: "real \<Rightarrow> int" where
  "roundTiesToEven q =
     (let f = \<lfloor>q\<rfloor> in
      if q - of_int f < 1 / 2 then f
      else if 1 / 2 < q - of_int f then f + 1
      else if even f then f else f + 1)"

definition ulpExponent :: "real \<Rightarrow> int" where
  "ulpExponent x =
     (case find (\<lambda>e. \<bar>x\<bar> < 2 powi (e + 53)) exponents of
        Some e \<Rightarrow> e
      | None \<Rightarrow> 971)"

definition roundDouble :: "real \<Rightarrow> real" where
  "roundDouble x =
     of_int (roundTiesToEven (x / 2 powi ulpExponent x)) * 2 powi ulpExponent x"

definition mulDouble :: "real \<Rightarrow> real \<Rightarrow> real" where
  "mulDouble x y = roundDouble (x * y)"

text \<open>
  The random numbers at which the integer part of the binary64 product \<open>rnd * 3\<close>
  steps from 0 to 1 and from 1 to 2.
\<close>

definition lowThird :: real where
  "lowThird = (1 - 1 / 2 ^ 54) / 3"

definition highThird :: real where
  "highThird = (2 - 1 / 2 ^ 53) / 3"

text \<open>
  What \<open>pickBestAiMove\<close> hands back: \<open>null\<close>, a cell index, or \<open>undefined\<close> (the
  \<open>index\<close> property of a result that has none, or an array read out of range).
\<close>

datatype move = Null | Undefined | Index nat

definition preferred :: "nat list" where
  "preferred = [4, 0, 2, 6, 8, 1, 3, 5, 7]"

text \<open>
  \<open>pickBestAiMove\<close>, lines 72-84.  The value of \<open>Math.random()\<close>, a binary64 number
  in \<open>[0, 1)\<close>, is the parameter \<open>rnd\<close>; \<open>Math.random() * 3\<close> is the binary64 product
  \<open>mulDouble rnd 3\<close> and \<open>Math.floor\<close> its integer part.
\<close>

definition pickBestAiMove :: "real \<Rightarrow> board \<Rightarrow> move" where
  "pickBestAiMove rnd board =
     (let moves = availableMoves board in
      if length moves = 0 then Null
      else
        let isEmpty = (length moves = 9) in
        if isEmpty then
          (let k = \<lfloor>mulDouble rnd 3\<rfloor> in
           if 0 \<le> k \<and> k < int (length preferred)
           then Index (preferred ! nat k) else Undefined)
        else
          (case index (minimax board True 0) of
             None \<Rightarrow> Undefined
           | Some i \<Rightarrow> Index i))"

section \<open>The outcome evaluator\<close>

text \<open>
  A completed line, as the specification words it: the three cells of the triple are
  non-empty and identical.
\<close>

definition completed :: "board \<Rightarrow> line \<Rightarrow> bool" where
  "completed board l =
     (case l of (a, b, c) \<Rightarrow>
        board ! a \<noteq> None \<and> board ! a = board ! b \<and> board ! b = board ! c)"

definition xRow :: board where
  "xRow = [Some PlayerX, Some PlayerX, Some PlayerX,
           Some PlayerO, Some PlayerO, None,
           None, None, None]"

lemma scanLines_first:
  "ls = pre @ l # post \<Longrightarrow> \<forall>k\<in>set pre. \<not> lineMatches board k \<Longrightarrow> lineMatches board l
   \<Longrightarrow> scanLines board ls = \<lparr>winner = cellAt board (fst l), line = Some l\<rparr>"
  by (induction pre arbitrary: ls) auto

lemma scanLines_none:
  "\<forall>k\<in>set ls. \<not> lineMatches board k \<Longrightarrow> scanLines board ls = \<lparr>winner = None, line = None\<rparr>"
  by (induction ls) auto

lemma lineMatches_winner: "lineMatches board l \<Longrightarrow> cellAt board (fst l) \<noteq> None"
  by (auto simp: lineMatches_def split: prod.splits)

lemma winner_scanLines_iff:
  "winner (scanLines board ls) \<noteq> None \<longleftrightarrow> (\<exists>k\<in>set ls. lineMatches board k)"
  by (induction ls) (auto dest: lineMatches_winner)

lemma WIN_LINES_bound: "(a, b, c) \<in> set WIN_LINES \<Longrightarrow> a < 9 \<and> b < 9 \<and> c < 9"
  by (auto simp: WIN_LINES_def)

lemma lineMatches_nth:
  "length board = 9 \<Longrightarrow> (a, b, c) \<in> set WIN_LINES \<Longrightarrow>
   lineMatches board (a, b, c) \<longleftrightarrow>
     board ! a \<noteq> None \<and> board ! a = board ! b \<and> board ! a = board ! c"
  using WIN_LINES_bound [of a b c] by (simp add: lineMatches_def cellAt_def)

lemma completed_iff_lineMatches:
  "length board = 9 \<Longrightarrow> l \<in> set WIN_LINES \<Longrightarrow> completed board l \<longleftrightarrow> lineMatches board l"
  by (cases l) (auto simp: completed_def lineMatches_nth)

text \<open>
  Claim C1.  On a 9-cell board on which one of the eight lines is completed,
  \<open>getWinnerInfo\<close> returns the first completed line in the order of \<open>WIN_LINES\<close>
  together with the marker its cells hold: no line before it is completed, the winner
  is not \<open>null\<close>, and when only one line is completed it is that one.
\<close>

theorem getWinnerInfo_first_completed_line:
  assumes len: "length board = 9"
    and l: "l \<in> set WIN_LINES" and c: "completed board l"
  shows "\<exists>pre a b c post.
           WIN_LINES = pre @ (a, b, c) # post
         \<and> (\<forall>k\<in>set pre. \<not> completed board k)
         \<and> completed board (a, b, c)
         \<and> getWinnerInfo board = \<lparr>winner = board ! a, line = Some (a, b, c)\<rparr>
         \<and> winner (getWinnerInfo board) \<noteq> None
         \<and> board ! b = board ! a \<and> board ! c = board ! a
         \<and> ((\<forall>k\<in>set WIN_LINES. completed board k \<longrightarrow> k = l) \<longrightarrow> (a, b, c) = l)"
proof -
  from l c have "\<exists>k\<in>set WIN_LINES. completed board k" by blast
  then obtain pre k post where
    split: "WIN_LINES = pre @ k # post" and ck: "completed board k"
    and first: "\<forall>y\<in>set pre. \<not> completed board y"
    by (rule split_list_first_propE)
  obtain a b c where k: "k = (a, b, c)" by (cases k)
  have kin: "k \<in> set WIN_LINES" by (subst split) simp
  have prein: "\<forall>y\<in>set pre. y \<in> set WIN_LINES" by (subst split) simp
  have mk: "lineMatches board k"
    using ck kin len by (simp add: completed_iff_lineMatches)
  have mpre: "\<forall>y\<in>set pre. \<not> lineMatches board y"
    using first prein len by (simp add: completed_iff_lineMatches)
  have a9: "a < 9" using kin k WIN_LINES_bound by blast
  have "getWinnerInfo board = \<lparr>winner = cellAt board (fst k), line = Some k\<rparr>"
    unfolding getWinnerInfo_def using split mpre mk by (rule scanLines_first)
  then have res: "getWinnerInfo board = \<lparr>winner = board ! a, line = Some (a, b, c)\<rparr>"
    using a9 len by (simp add: k cellAt_def)
  have cells: "board ! a \<noteq> None \<and> board ! b = board ! a \<and> board ! c = board ! a"
    using ck by (auto simp: k completed_def)
  have uniq: "(\<forall>y\<in>set WIN_LINES. completed board y \<longrightarrow> y = l) \<longrightarrow> (a, b, c) = l"
    using kin ck unfolding k by blast
  have "WIN_LINES = pre @ (a, b, c) # post
      \<and> (\<forall>k\<in>set pre. \<not> completed board k)
      \<and> completed board (a, b, c)
      \<and> getWinnerInfo board = \<lparr>winner = board ! a, line = Some (a, b, c)\<rparr>
      \<and> winner (getWinnerInfo board) \<noteq> None
      \<and> board ! b = board ! a \<and> board ! c = board ! a
      \<and> ((\<forall>k\<in>set WIN_LINES. completed board k \<longrightarrow> k = l) \<longrightarrow> (a, b, c) = l)"
    using split first ck res cells uniq unfolding k by simp
  then show ?thesis by blast
qed

theorem getWinnerInfo_first_completed_line_witness:
  "length xRow = 9 \<and> (0, 1, 2) \<in> set WIN_LINES \<and> completed xRow (0, 1, 2)
   \<and> getWinnerInfo xRow = \<lparr>winner = Some PlayerX, line = Some (0, 1, 2)\<rparr>"
proof -
  have h: "length xRow = 9" "(0, 1, 2) \<in> set WIN_LINES" "completed xRow (0, 1, 2)"
    by (simp_all add: xRow_def WIN_LINES_def completed_def)
  from getWinnerInfo_first_completed_line [OF h]
  obtain pre a b c post where "WIN_LINES = pre @ (a, b, c) # post"
    and "getWinnerInfo xRow = \<lparr>winner = xRow ! a, line = Some (a, b, c)\<rparr>"
    and "(\<forall>k\<in>set WIN_LINES. completed xRow k \<longrightarrow> k = (0, 1, 2)) \<longrightarrow> (a, b, c) = (0, 1, 2)"
    by blast
  moreover have "\<forall>k\<in>set WIN_LINES. completed xRow k \<longrightarrow> k = (0, 1, 2)"
    by (simp add: xRow_def WIN_LINES_def completed_def)
  ultimately have "getWinnerInfo xRow = \<lparr>winner = xRow ! 0, line = Some (0, 1, 2)\<rparr>"
    by auto
  then show ?thesis using h by (simp add: xRow_def)
qed


text \<open>
  The verdict the component derives from the evaluator, lines 109-123: \<open>isDraw\<close> is
  \<open>!winner && isBoardFull(board)\<close>, and \<open>status\<close> reports a win, a draw, or play
  in progress (whose turn it is, or that the computer is thinking).
\<close>

definition isDraw :: "board \<Rightarrow> bool" where
  "isDraw board = (winner (getWinnerInfo board) = None \<and> isBoardFull board)"

datatype status = Wins player | Draw | AiThinking | NextX | NextO

definition status :: "board \<Rightarrow> bool \<Rightarrow> bool \<Rightarrow> status" where
  "status board xIsNext aiMode =
     (case winner (getWinnerInfo board) of
        Some w \<Rightarrow> Wins w
      | None \<Rightarrow>
          if isDraw board then Draw
          else if \<not> xIsNext \<and> aiMode then AiThinking
          else if xIsNext then NextX else NextO)"

definition inProgress :: "status \<Rightarrow> bool" where
  "inProgress s = (s = AiThinking \<or> s = NextX \<or> s = NextO)"

definition drawnBoard :: board where
  "drawnBoard = [Some PlayerX, Some PlayerO, Some PlayerX,
                 Some PlayerX, Some PlayerO, Some PlayerO,
                 Some PlayerO, Some PlayerX, Some PlayerX]"

lemma no_completed_no_winner:
  assumes "length board = 9" and "\<forall>l\<in>set WIN_LINES. \<not> completed board l"
  shows "getWinnerInfo board = \<lparr>winner = None, line = None\<rparr>"
proof -
  have "\<forall>l\<in>set WIN_LINES. \<not> lineMatches board l"
    using assms by (simp add: completed_iff_lineMatches)
  then show ?thesis unfolding getWinnerInfo_def by (rule scanLines_none)
qed

lemma isBoardFull_nth: "isBoardFull board \<longleftrightarrow> (\<forall>i<length board. board ! i \<noteq> None)"
  by (simp add: isBoardFull_def list_all_length)

text \<open>
  Claim C2.  On a 9-cell board with no completed line the evaluator reports no winner
  and no line; the draw flag is set, and the status is the draw, exactly when all nine
  cells are non-empty; with an empty cell the status is one of those of a game in
  progress; a win is never reported.
\<close>

theorem no_line_draw_iff_full:
  assumes len: "length board = 9" and none: "\<forall>l\<in>set WIN_LINES. \<not> completed board l"
  shows "winner (getWinnerInfo board) = None
       \<and> line (getWinnerInfo board) = None
       \<and> (isDraw board \<longleftrightarrow> (\<forall>i<9. board ! i \<noteq> None))
       \<and> (status board xIsNext aiMode = Draw \<longleftrightarrow> (\<forall>i<9. board ! i \<noteq> None))
       \<and> ((\<exists>i<9. board ! i = None) \<longrightarrow> inProgress (status board xIsNext aiMode))
       \<and> (\<forall>p. status board xIsNext aiMode \<noteq> Wins p)"
proof -
  have w: "getWinnerInfo board = \<lparr>winner = None, line = None\<rparr>"
    using len none by (rule no_completed_no_winner)
  have d: "isDraw board \<longleftrightarrow> (\<forall>i<9. board ! i \<noteq> None)"
    using len by (simp add: isDraw_def w isBoardFull_nth)
  show ?thesis
    using d by (auto simp: w status_def inProgress_def)
qed

theorem no_line_draw_iff_full_witness:
  "length drawnBoard = 9 \<and> winner (getWinnerInfo drawnBoard) = None
   \<and> isDraw drawnBoard \<and> status drawnBoard True False = Draw"
proof -
  have h: "length drawnBoard = 9" "\<forall>l\<in>set WIN_LINES. \<not> completed drawnBoard l"
    by (simp_all add: drawnBoard_def WIN_LINES_def completed_def)
  have full: "\<forall>i<9. drawnBoard ! i \<noteq> None"
  proof (intro allI impI)
    fix i :: nat assume "i < 9"
    then have "i \<in> {0, 1, 2, 3, 4, 5, 6, 7, 8}" by auto
    then show "drawnBoard ! i \<noteq> None" by (auto simp: drawnBoard_def)
  qed
  from no_line_draw_iff_full [OF h, of True False] full h show ?thesis by simp
qed

section \<open>The search: how a node selects among its children\<close>

text \<open>
  The body of each \<open>for\<close> loop of \<open>minimax\<close>: the child's result replaces \<open>best\<close> when its
  score is strictly better, \<open>>\<close> in the maximizing loop and \<open><\<close> in the minimizing
  one.
\<close>


definition keepBetter ::
  "(score \<Rightarrow> score \<Rightarrow> bool) \<Rightarrow> (nat \<Rightarrow> result) \<Rightarrow> nat \<Rightarrow> result \<Rightarrow> result" where
  "keepBetter better f idx best =
     (let res = f idx in
      if better (score res) (score best)
      then \<lparr>score = score res, index = Some idx\<rparr> else best)"

lemma fold_keepBetter_index:
  "index (fold (keepBetter better f) ms init) \<in> insert (index init) (Some ` set ms)"
  by (induction ms rule: rev_induct) (auto simp: keepBetter_def Let_def)

lemma firstMove_in: "firstMove ms = Some i \<Longrightarrow> i \<in> set ms"
  by (cases ms) (auto simp: firstMove_def)

lemma firstMove_Some: "ms \<noteq> [] \<Longrightarrow> \<exists>i. firstMove ms = Some i"
  by (cases ms) (auto simp: firstMove_def)

lemma fold_keepBetter_first_best:
  assumes irrefl: "\<And>a. \<not> better a a"
    and trans: "\<And>a b c. better a b \<Longrightarrow> better b c \<Longrightarrow> better a c"
    and negtrans: "\<And>a b c. \<not> better a b \<Longrightarrow> \<not> better b c \<Longrightarrow> \<not> better a c"
  shows "ms \<noteq> [] \<Longrightarrow> \<forall>j\<in>set ms. better (score (f j)) s0 \<Longrightarrow>
     \<exists>pre i post. ms = pre @ i # post
       \<and> fold (keepBetter better f) ms \<lparr>score = s0, index = i0\<rparr>
           = \<lparr>score = score (f i), index = Some i\<rparr>
       \<and> (\<forall>j\<in>set pre. better (score (f i)) (score (f j)))
       \<and> (\<forall>j\<in>set post. \<not> better (score (f j)) (score (f i)))"
proof (induction ms rule: rev_induct)
  case Nil
  then show ?case by simp
next
  case (snoc x xs)
  show ?case
  proof (cases "xs = []")
    case True
    have "better (score (f x)) s0" using snoc.prems by simp
    then have "fold (keepBetter better f) (xs @ [x]) \<lparr>score = s0, index = i0\<rparr>
        = \<lparr>score = score (f x), index = Some x\<rparr>"
      using True by (simp add: keepBetter_def)
    then have "xs @ [x] = [] @ x # []
       \<and> fold (keepBetter better f) (xs @ [x]) \<lparr>score = s0, index = i0\<rparr>
           = \<lparr>score = score (f x), index = Some x\<rparr>
       \<and> (\<forall>j\<in>set []. better (score (f x)) (score (f j)))
       \<and> (\<forall>j\<in>set []. \<not> better (score (f j)) (score (f x)))"
      using True by simp
    then show ?thesis by blast
  next
    case False
    have "\<forall>j\<in>set xs. better (score (f j)) s0" using snoc.prems by simp
    with snoc.IH False obtain pre i post where
      xs: "xs = pre @ i # post"
      and r: "fold (keepBetter better f) xs \<lparr>score = s0, index = i0\<rparr>
                = \<lparr>score = score (f i), index = Some i\<rparr>"
      and pre: "\<forall>j\<in>set pre. better (score (f i)) (score (f j))"
      and post: "\<forall>j\<in>set post. \<not> better (score (f j)) (score (f i))"
      by blast
    show ?thesis
    proof (cases "better (score (f x)) (score (f i))")
      case True
      have res: "fold (keepBetter better f) (xs @ [x]) \<lparr>score = s0, index = i0\<rparr>
          = \<lparr>score = score (f x), index = Some x\<rparr>"
        using True r by (simp add: keepBetter_def)
      have all: "\<forall>j\<in>set xs. better (score (f x)) (score (f j))"
      proof
        fix j assume "j \<in> set xs"
        then consider "j \<in> set pre" | "j = i" | "j \<in> set post"
          using xs by auto
        then show "better (score (f x)) (score (f j))"
        proof cases
          case 1
          then show ?thesis using pre True trans by blast
        next
          case 2
          then show ?thesis using True by simp
        next
          case 3
          then have "\<not> better (score (f j)) (score (f i))" using post by blast
          then show ?thesis using True negtrans by blast
        qed
      qed
      have "xs @ [x] = xs @ x # []
         \<and> fold (keepBetter better f) (xs @ [x]) \<lparr>score = s0, index = i0\<rparr>
             = \<lparr>score = score (f x), index = Some x\<rparr>
         \<and> (\<forall>j\<in>set xs. better (score (f x)) (score (f j)))
         \<and> (\<forall>j\<in>set []. \<not> better (score (f j)) (score (f x)))"
        using res all by simp
      then show ?thesis by blast
    next
      case False
      have res: "fold (keepBetter better f) (xs @ [x]) \<lparr>score = s0, index = i0\<rparr>
          = \<lparr>score = score (f i), index = Some i\<rparr>"
        using False r by (simp add: keepBetter_def)
      have "xs @ [x] = pre @ i # (post @ [x])
         \<and> fold (keepBetter better f) (xs @ [x]) \<lparr>score = s0, index = i0\<rparr>
             = \<lparr>score = score (f i), index = Some i\<rparr>
         \<and> (\<forall>j\<in>set pre. better (score (f i)) (score (f j)))
         \<and> (\<forall>j\<in>set (post @ [x]). \<not> better (score (f j)) (score (f i)))"
        using res pre post False xs by simp
      then show ?thesis by blast
    qed
  qed
qed

lemma minimax_terminal_win:
  "winner (getWinnerInfo board) \<noteq> None \<Longrightarrow>
   minimax board mx depth
     = \<lparr>score = Fin (scoreTerminal (winner (getWinnerInfo board)) depth), index = None\<rparr>"
  by (subst minimax.simps) (simp add: Let_def)

lemma minimax_terminal_full:
  "winner (getWinnerInfo board) = None \<Longrightarrow> isBoardFull board \<Longrightarrow>
   minimax board mx depth = \<lparr>score = Fin 0, index = None\<rparr>"
  by (subst minimax.simps) (simp add: Let_def)

lemma minimax_max_node:
  "winner (getWinnerInfo board) = None \<Longrightarrow> \<not> isBoardFull board \<Longrightarrow>
   minimax board True depth
     = fold (keepBetter (\<lambda>a b. b < a)
               (\<lambda>idx. minimax (place board idx PlayerO) False (depth + 1)))
         (availableMoves board)
         \<lparr>score = NegInf, index = firstMove (availableMoves board)\<rparr>"
  by (subst minimax.simps) (simp add: Let_def keepBetter_def [abs_def])

lemma minimax_min_node:
  "winner (getWinnerInfo board) = None \<Longrightarrow> \<not> isBoardFull board \<Longrightarrow>
   minimax board False depth
     = fold (keepBetter (\<lambda>a b. a < b)
               (\<lambda>idx. minimax (place board idx PlayerX) True (depth + 1)))
         (availableMoves board)
         \<lparr>score = PosInf, index = firstMove (availableMoves board)\<rparr>"
  by (subst minimax.simps) (simp add: Let_def keepBetter_def [abs_def])

lemma notFull_moves: "\<not> isBoardFull board \<Longrightarrow> availableMoves board \<noteq> []"
proof -
  assume "\<not> isBoardFull board"
  then obtain v where "v \<in> set board" "v = None"
    by (auto simp: isBoardFull_def list_all_iff)
  then obtain i where "i < length board" "board ! i = None"
    by (auto simp: in_set_conv_nth)
  then have "i \<in> set (availableMoves board)" by (simp add: availableMoves_iff)
  then show ?thesis by auto
qed

lemma moves_notFull: "availableMoves board \<noteq> [] \<Longrightarrow> \<not> isBoardFull board"
proof -
  assume "availableMoves board \<noteq> []"
  then obtain i where "i \<in> set (availableMoves board)" by (cases "availableMoves board") auto
  then have "i < length board" "board ! i = None" by (simp_all add: availableMoves_iff)
  then have "None \<in> set board" by (metis nth_mem)
  then show ?thesis by (auto simp: isBoardFull_def list_all_iff)
qed

lemma NegInf_less_Fin: "NegInf < Fin a" and Fin_less_PosInf: "Fin a < PosInf"
  and Fin_less_iff: "Fin a < Fin b \<longleftrightarrow> a < b" and Fin_le_iff: "Fin a \<le> Fin b \<longleftrightarrow> a \<le> b"
  by (auto simp: less_score_def)


lemma fold_max_first_best:
  assumes "ms \<noteq> []" and "\<forall>j\<in>set ms. s0 < score (f j)"
  shows "\<exists>pre i post. ms = pre @ i # post
       \<and> fold (keepBetter (\<lambda>a b. b < a) f) ms \<lparr>score = s0, index = i0\<rparr>
           = \<lparr>score = score (f i), index = Some i\<rparr>
       \<and> (\<forall>j\<in>set pre. score (f j) < score (f i))
       \<and> (\<forall>j\<in>set post. score (f j) \<le> score (f i))"
proof -
  have "\<exists>pre i post. ms = pre @ i # post
       \<and> fold (keepBetter (\<lambda>a b. b < a) f) ms \<lparr>score = s0, index = i0\<rparr>
           = \<lparr>score = score (f i), index = Some i\<rparr>
       \<and> (\<forall>j\<in>set pre. (\<lambda>a b. b < a) (score (f i)) (score (f j)))
       \<and> (\<forall>j\<in>set post. \<not> (\<lambda>a b. b < a) (score (f j)) (score (f i)))"
  proof (rule fold_keepBetter_first_best)
    show "ms \<noteq> []" by (rule assms)
    show "\<forall>j\<in>set ms. s0 < score (f j)" by (rule assms)
  qed auto
  then show ?thesis by (simp add: not_less)
qed

lemma fold_min_first_best:
  assumes "ms \<noteq> []" and "\<forall>j\<in>set ms. score (f j) < s0"
  shows "\<exists>pre i post. ms = pre @ i # post
       \<and> fold (keepBetter (\<lambda>a b. a < b) f) ms \<lparr>score = s0, index = i0\<rparr>
           = \<lparr>score = score (f i), index = Some i\<rparr>
       \<and> (\<forall>j\<in>set pre. score (f i) < score (f j))
       \<and> (\<forall>j\<in>set post. score (f i) \<le> score (f j))"
proof -
  have "\<exists>pre i post. ms = pre @ i # post
       \<and> fold (keepBetter (\<lambda>a b. a < b) f) ms \<lparr>score = s0, index = i0\<rparr>
           = \<lparr>score = score (f i), index = Some i\<rparr>
       \<and> (\<forall>j\<in>set pre. (\<lambda>a b. a < b) (score (f i)) (score (f j)))
       \<and> (\<forall>j\<in>set post. \<not> (\<lambda>a b. a < b) (score (f j)) (score (f i)))"
  proof (rule fold_keepBetter_first_best)
    show "ms \<noteq> []" by (rule assms)
    show "\<forall>j\<in>set ms. score (f j) < s0" by (rule assms)
  qed auto
  then show ?thesis by (simp add: not_less)
qed


lemma max_node_first_best:
  assumes nowin: "winner (getWinnerInfo board) = None" and notfull: "\<not> isBoardFull board"
    and fin: "\<forall>j\<in>set (availableMoves board).
                \<exists>s. score (minimax (place board j PlayerO) False (depth + 1)) = Fin s"
  shows "\<exists>pre i post. availableMoves board = pre @ i # post
       \<and> minimax board True depth
           = \<lparr>score = score (minimax (place board i PlayerO) False (depth + 1)),
              index = Some i\<rparr>
       \<and> (\<forall>j\<in>set pre. score (minimax (place board j PlayerO) False (depth + 1))
                          < score (minimax (place board i PlayerO) False (depth + 1)))
       \<and> (\<forall>j\<in>set post. score (minimax (place board j PlayerO) False (depth + 1))
                          \<le> score (minimax (place board i PlayerO) False (depth + 1)))"
proof -
  have ne: "availableMoves board \<noteq> []" using notfull by (rule notFull_moves)
  have beat: "\<forall>j\<in>set (availableMoves board).
      NegInf < score (minimax (place board j PlayerO) False (depth + 1))"
  proof
    fix j assume "j \<in> set (availableMoves board)"
    with fin obtain s where "score (minimax (place board j PlayerO) False (depth + 1)) = Fin s"
      by blast
    then show "NegInf < score (minimax (place board j PlayerO) False (depth + 1))"
      by (simp add: NegInf_less_Fin)
  qed
  show ?thesis
    unfolding minimax_max_node [OF nowin notfull]
    using ne beat by (rule fold_max_first_best)
qed

lemma min_node_first_best:
  assumes nowin: "winner (getWinnerInfo board) = None" and notfull: "\<not> isBoardFull board"
    and fin: "\<forall>j\<in>set (availableMoves board).
                \<exists>s. score (minimax (place board j PlayerX) True (depth + 1)) = Fin s"
  shows "\<exists>pre i post. availableMoves board = pre @ i # post
       \<and> minimax board False depth
           = \<lparr>score = score (minimax (place board i PlayerX) True (depth + 1)),
              index = Some i\<rparr>
       \<and> (\<forall>j\<in>set pre. score (minimax (place board i PlayerX) True (depth + 1))
                          < score (minimax (place board j PlayerX) True (depth + 1)))
       \<and> (\<forall>j\<in>set post. score (minimax (place board i PlayerX) True (depth + 1))
                          \<le> score (minimax (place board j PlayerX) True (depth + 1)))"
proof -
  have ne: "availableMoves board \<noteq> []" using notfull by (rule notFull_moves)
  have beat: "\<forall>j\<in>set (availableMoves board).
      score (minimax (place board j PlayerX) True (depth + 1)) < PosInf"
  proof
    fix j assume "j \<in> set (availableMoves board)"
    with fin obtain s where "score (minimax (place board j PlayerX) True (depth + 1)) = Fin s"
      by blast
    then show "score (minimax (place board j PlayerX) True (depth + 1)) < PosInf"
      by (simp add: Fin_less_PosInf)
  qed
  show ?thesis
    unfolding minimax_min_node [OF nowin notfull]
    using ne beat by (rule fold_min_first_best)
qed

lemma minimax_score_finite: "\<exists>s. score (minimax board mx depth) = Fin s"
proof (induction board mx depth rule: minimax.induct)
  case (1 board isMaximizing depth)
  show ?case
  proof (cases "winner (getWinnerInfo board) \<noteq> None")
    case True
    then show ?thesis by (simp add: minimax_terminal_win)
  next
    case False
    then have nowin: "winner (getWinnerInfo board) = None" by simp
    show ?thesis
    proof (cases "isBoardFull board")
      case True
      then show ?thesis using nowin by (simp add: minimax_terminal_full)
    next
      case notfull: False
      show ?thesis
      proof (cases isMaximizing)
        case True
        have fin: "\<forall>j\<in>set (availableMoves board).
            \<exists>s. score (minimax (place board j PlayerO) False (depth + 1)) = Fin s"
          using "1.IH"(1) [OF refl _ notfull refl True] nowin by blast
        from max_node_first_best [OF nowin notfull fin]
        obtain pre i post where mv: "availableMoves board = pre @ i # post"
          and r: "minimax board True depth
           = \<lparr>score = score (minimax (place board i PlayerO) False (depth + 1)),
              index = Some i\<rparr>"
          by blast
        have "i \<in> set (availableMoves board)" by (subst mv) simp
        with fin obtain s where
          "score (minimax (place board i PlayerO) False (depth + 1)) = Fin s" by blast
        then show ?thesis using r True by simp
      next
        case False
        have fin: "\<forall>j\<in>set (availableMoves board).
            \<exists>s. score (minimax (place board j PlayerX) True (depth + 1)) = Fin s"
          using "1.IH"(2) [OF refl _ notfull refl False] nowin by blast
        from min_node_first_best [OF nowin notfull fin]
        obtain pre i post where mv: "availableMoves board = pre @ i # post"
          and r: "minimax board False depth
           = \<lparr>score = score (minimax (place board i PlayerX) True (depth + 1)),
              index = Some i\<rparr>"
          by blast
        have "i \<in> set (availableMoves board)" by (subst mv) simp
        with fin obtain s where
          "score (minimax (place board i PlayerX) True (depth + 1)) = Fin s" by blast
        then show ?thesis using r False by simp
      qed
    qed
  qed
qed


definition columnBoard :: board where
  "columnBoard = [Some PlayerX, Some PlayerO, None,
                  Some PlayerX, Some PlayerO, None,
                  None, None, None]"

text \<open>The score of the child reached by placing \<open>mark\<close> at \<open>idx\<close>, as the search computes it.\<close>

definition childScore :: "board \<Rightarrow> bool \<Rightarrow> int \<Rightarrow> nat \<Rightarrow> score" where
  "childScore board isMaximizing depth idx =
     score (minimax (place board idx (if isMaximizing then PlayerO else PlayerX))
              (\<not> isMaximizing) (depth + 1))"

lemma minimax_index_in_moves:
  assumes "index (minimax board mx depth) = Some i"
  shows "i \<in> set (availableMoves board)
       \<and> winner (getWinnerInfo board) = None \<and> \<not> isBoardFull board"
proof -
  have nowin: "winner (getWinnerInfo board) = None"
    using assms by (cases "winner (getWinnerInfo board) = None")
      (simp_all add: minimax_terminal_win)
  have notfull: "\<not> isBoardFull board"
    using assms nowin by (cases "isBoardFull board") (simp_all add: minimax_terminal_full)
  have "i \<in> set (availableMoves board)"
  proof (cases mx)
    case True
    from max_node_first_best [OF nowin notfull, of depth] minimax_score_finite
    obtain pre k post where "availableMoves board = pre @ k # post"
      and "index (minimax board True depth) = Some k"
      by fastforce
    then show ?thesis using assms True by simp
  next
    case False
    from min_node_first_best [OF nowin notfull, of depth] minimax_score_finite
    obtain pre k post where "availableMoves board = pre @ k # post"
      and "index (minimax board False depth) = Some k"
      by fastforce
    then show ?thesis using assms False by simp
  qed
  then show ?thesis using nowin notfull by simp
qed

lemma nonterminal_index:
  assumes nowin: "winner (getWinnerInfo board) = None" and notfull: "\<not> isBoardFull board"
  shows "\<exists>i. index (minimax board mx depth) = Some i"
proof (cases mx)
  case True
  from max_node_first_best [OF nowin notfull, of depth] minimax_score_finite
  show ?thesis using True by fastforce
next
  case False
  from min_node_first_best [OF nowin notfull, of depth] minimax_score_finite
  show ?thesis using False by fastforce
qed

lemma max_node_childScore:
  assumes nowin: "winner (getWinnerInfo board) = None" and notfull: "\<not> isBoardFull board"
  shows "\<exists>pre i post. availableMoves board = pre @ i # post
            \<and> minimax board True depth
                = \<lparr>score = childScore board True depth i, index = Some i\<rparr>
            \<and> (\<forall>j\<in>set (availableMoves board).
                  childScore board True depth j \<le> childScore board True depth i)
            \<and> (\<forall>j\<in>set pre. childScore board True depth j < childScore board True depth i)"
proof -
  from max_node_first_best [OF nowin notfull, of depth] minimax_score_finite
  obtain pre i post where mv: "availableMoves board = pre @ i # post"
    and r: "minimax board True depth
           = \<lparr>score = childScore board True depth i, index = Some i\<rparr>"
    and pre: "\<forall>j\<in>set pre. childScore board True depth j < childScore board True depth i"
    and post: "\<forall>j\<in>set post. childScore board True depth j \<le> childScore board True depth i"
    unfolding childScore_def by fastforce
  have all: "\<forall>j\<in>set (availableMoves board).
      childScore board True depth j \<le> childScore board True depth i"
    using pre post by (subst mv) auto
  show ?thesis using mv r all pre by blast
qed

lemma min_node_childScore:
  assumes nowin: "winner (getWinnerInfo board) = None" and notfull: "\<not> isBoardFull board"
  shows "\<exists>pre i post. availableMoves board = pre @ i # post
            \<and> minimax board False depth
                = \<lparr>score = childScore board False depth i, index = Some i\<rparr>
            \<and> (\<forall>j\<in>set (availableMoves board).
                  childScore board False depth i \<le> childScore board False depth j)
            \<and> (\<forall>j\<in>set pre. childScore board False depth i < childScore board False depth j)"
proof -
  from min_node_first_best [OF nowin notfull, of depth] minimax_score_finite
  obtain pre i post where mv: "availableMoves board = pre @ i # post"
    and r: "minimax board False depth
           = \<lparr>score = childScore board False depth i, index = Some i\<rparr>"
    and pre: "\<forall>j\<in>set pre. childScore board False depth i < childScore board False depth j"
    and post: "\<forall>j\<in>set post. childScore board False depth i \<le> childScore board False depth j"
    unfolding childScore_def by fastforce
  have all: "\<forall>j\<in>set (availableMoves board).
      childScore board False depth i \<le> childScore board False depth j"
    using pre post by (subst mv) auto
  show ?thesis using mv r all pre by blast
qed

lemma pickBestAiMove_search:
  assumes "availableMoves board \<noteq> []" and "length (availableMoves board) \<noteq> 9"
  shows "pickBestAiMove rnd board
     = (case index (minimax board True 0) of None \<Rightarrow> Undefined | Some i \<Rightarrow> Index i)"
  using assms by (simp add: pickBestAiMove_def)

text \<open>
  Claim C3.  At a node that is not terminal (no winner, board not full) the maximizing
  search returns the score and the index of a child whose score no other child
  exceeds, and every child enumerated before it scores strictly less: it is the first
  of the best children.  The minimizing search does the same with the lowest score.
  The selector, on such a board that is not entirely empty, returns that first best
  child of the root.
\<close>

theorem minimax_first_best_child:
  assumes nowin: "winner (getWinnerInfo board) = None" and notfull: "\<not> isBoardFull board"
  shows "(\<exists>pre i post. availableMoves board = pre @ i # post
            \<and> minimax board True depth
                = \<lparr>score = childScore board True depth i, index = Some i\<rparr>
            \<and> (\<forall>j\<in>set (availableMoves board).
                  childScore board True depth j \<le> childScore board True depth i)
            \<and> (\<forall>j\<in>set pre. childScore board True depth j < childScore board True depth i))
       \<and> (\<exists>pre i post. availableMoves board = pre @ i # post
            \<and> minimax board False depth
                = \<lparr>score = childScore board False depth i, index = Some i\<rparr>
            \<and> (\<forall>j\<in>set (availableMoves board).
                  childScore board False depth i \<le> childScore board False depth j)
            \<and> (\<forall>j\<in>set pre. childScore board False depth i < childScore board False depth j))
       \<and> (length (availableMoves board) \<noteq> 9 \<longrightarrow>
           (\<exists>pre i post. availableMoves board = pre @ i # post
            \<and> pickBestAiMove rnd board = Index i
            \<and> (\<forall>j\<in>set (availableMoves board).
                  childScore board True 0 j \<le> childScore board True 0 i)
            \<and> (\<forall>j\<in>set pre. childScore board True 0 j < childScore board True 0 i)))"
proof (intro conjI impI)
  show "\<exists>pre i post. availableMoves board = pre @ i # post
            \<and> minimax board True depth
                = \<lparr>score = childScore board True depth i, index = Some i\<rparr>
            \<and> (\<forall>j\<in>set (availableMoves board).
                  childScore board True depth j \<le> childScore board True depth i)
            \<and> (\<forall>j\<in>set pre. childScore board True depth j < childScore board True depth i)"
    using nowin notfull by (rule max_node_childScore)
next
  show "\<exists>pre i post. availableMoves board = pre @ i # post
            \<and> minimax board False depth
                = \<lparr>score = childScore board False depth i, index = Some i\<rparr>
            \<and> (\<forall>j\<in>set (availableMoves board).
                  childScore board False depth i \<le> childScore board False depth j)
            \<and> (\<forall>j\<in>set pre. childScore board False depth i < childScore board False depth j)"
    using nowin notfull by (rule min_node_childScore)
next
  assume n9: "length (availableMoves board) \<noteq> 9"
  have ne: "availableMoves board \<noteq> []" using notfull by (rule notFull_moves)
  from max_node_childScore [OF nowin notfull, of 0]
  obtain pre i post where mv: "availableMoves board = pre @ i # post"
    and r: "minimax board True 0 = \<lparr>score = childScore board True 0 i, index = Some i\<rparr>"
    and all: "\<forall>j\<in>set (availableMoves board).
                  childScore board True 0 j \<le> childScore board True 0 i"
    and pre: "\<forall>j\<in>set pre. childScore board True 0 j < childScore board True 0 i"
    by blast
  have "pickBestAiMove rnd board = Index i"
    using r by (simp add: pickBestAiMove_search [OF ne n9])
  then show "\<exists>pre i post. availableMoves board = pre @ i # post
            \<and> pickBestAiMove rnd board = Index i
            \<and> (\<forall>j\<in>set (availableMoves board).
                  childScore board True 0 j \<le> childScore board True 0 i)
            \<and> (\<forall>j\<in>set pre. childScore board True 0 j < childScore board True 0 i)"
    using mv all pre by blast
qed

lemma columnBoard_facts:
  "winner (getWinnerInfo columnBoard) = None" "\<not> isBoardFull columnBoard"
  "availableMoves columnBoard = [2, 5, 6, 7, 8]"
  by code_simp+

theorem minimax_first_best_child_witness:
  "winner (getWinnerInfo columnBoard) = None \<and> \<not> isBoardFull columnBoard
   \<and> pickBestAiMove 0 columnBoard \<in> Index ` set (availableMoves columnBoard)"
proof -
  have n9: "length (availableMoves columnBoard) \<noteq> 9"
    by (simp add: columnBoard_facts)
  from minimax_first_best_child [OF columnBoard_facts(1,2), of 0 0] n9
  obtain pre i post where mv: "availableMoves columnBoard = pre @ i # post"
    and "pickBestAiMove 0 columnBoard = Index i"
    and "\<forall>j\<in>set (availableMoves columnBoard).
                  childScore columnBoard True 0 j \<le> childScore columnBoard True 0 i"
    by blast
  moreover have "i \<in> set (availableMoves columnBoard)" by (subst mv) simp
  ultimately show ?thesis using columnBoard_facts(1,2) by blast
qed


section \<open>The binary64 product of the opening move\<close>

lemma find_upto_least:
  assumes "i \<le> e" and "e \<le> j" and "P e" and "\<And>k. i \<le> k \<Longrightarrow> k < e \<Longrightarrow> \<not> P k"
  shows "find P [i..j] = Some e"
  using assms
proof (induction "nat (e - i)" arbitrary: i)
  case 0
  then have "i = e" by simp
  then show ?case using "0.prems" by (simp add: upto_rec1)
next
  case (Suc n)
  then have lt: "i < e" by simp
  then have np: "\<not> P i" using Suc.prems(4) by simp
  have l: "[i..j] = i # [i + 1..j]" using lt Suc.prems(2) by (simp add: upto_rec1)
  have "find P [i + 1..j] = Some e"
  proof (rule Suc.hyps(1))
    show "n = nat (e - (i + 1))" using Suc.hyps(2) by simp
    show "i + 1 \<le> e" using lt by simp
    show "e \<le> j" by (rule Suc.prems(2))
    show "P e" by (rule Suc.prems(3))
    show "\<not> P k" if "i + 1 \<le> k" and "k < e" for k
      using that Suc.prems(4) [of k] by simp
  qed
  then show ?case by (simp add: l np)
qed

lemma find_upto_le:
  assumes "i \<le> e" and "e \<le> j" and "P e"
  shows "\<exists>e'. find P [i..j] = Some e' \<and> i \<le> e' \<and> e' \<le> e"
  using assms
proof (induction "nat (e - i)" arbitrary: i)
  case 0
  then have "i = e" by simp
  then show ?case using "0.prems" by (simp add: upto_rec1)
next
  case (Suc n)
  then have lt: "i < e" by simp
  have l: "[i..j] = i # [i + 1..j]" using lt Suc.prems(2) by (simp add: upto_rec1)
  show ?case
  proof (cases "P i")
    case True
    then show ?thesis using lt by (simp add: l)
  next
    case False
    have "\<exists>e'. find P [i + 1..j] = Some e' \<and> i + 1 \<le> e' \<and> e' \<le> e"
    proof (rule Suc.hyps(1))
      show "n = nat (e - (i + 1))" using Suc.hyps(2) by simp
      show "i + 1 \<le> e" using lt by simp
      show "e \<le> j" by (rule Suc.prems(2))
      show "P e" by (rule Suc.prems(3))
    qed
    then show ?thesis using False by (auto simp: l)
  qed
qed

lemma set_exponents: "set exponents = {- 1074 .. 971}"
  by (simp only: exponents_def set_upto)

lemma powi_powr: "(2::real) powi e = 2 powr of_int e"
  by (simp add: powr_real_of_int')

lemma roundDouble_powr:
  "roundDouble x
     = of_int (roundTiesToEven (x / 2 powr of_int (ulpExponent x))) * 2 powr of_int (ulpExponent x)"
  by (simp add: roundDouble_def powi_powr)

lemma isDouble_iff:
  "isDouble x \<longleftrightarrow>
     (\<exists>m e :: int. \<bar>m\<bar> < 2 ^ 53 \<and> - 1074 \<le> e \<and> e \<le> 971 \<and> x = of_int m * 2 powr of_int e)"
proof
  assume "isDouble x"
  then obtain e :: int where e: "- 1074 \<le> e" "e \<le> 971"
    and int: "of_int \<lfloor>x / 2 powi e\<rfloor> = x / 2 powi e" and lt: "\<bar>x / 2 powi e\<bar> < 2 ^ 53"
    by (auto simp: isDouble_def list_ex_iff set_exponents)
  have "\<bar>of_int \<lfloor>x / 2 powi e\<rfloor> :: real\<bar> < of_int (2 ^ 53)" using lt by (simp add: int)
  then have "(of_int \<bar>\<lfloor>x / 2 powi e\<rfloor>\<bar> :: real) < of_int (2 ^ 53)" by simp
  then have m: "\<bar>\<lfloor>x / 2 powi e\<rfloor>\<bar> < 2 ^ 53" by (simp only: of_int_less_iff)
  have "x = of_int \<lfloor>x / 2 powi e\<rfloor> * 2 powi e" by (simp add: int)
  then have "x = of_int \<lfloor>x / 2 powi e\<rfloor> * 2 powr of_int e" by (simp only: powi_powr)
  with m e show "\<exists>m e :: int. \<bar>m\<bar> < 2 ^ 53 \<and> - 1074 \<le> e \<and> e \<le> 971
      \<and> x = of_int m * 2 powr of_int e"
    by blast
next
  assume "\<exists>m e :: int. \<bar>m\<bar> < 2 ^ 53 \<and> - 1074 \<le> e \<and> e \<le> 971 \<and> x = of_int m * 2 powr of_int e"
  then obtain m e :: int where m: "\<bar>m\<bar> < 2 ^ 53" and e: "- 1074 \<le> e" "e \<le> 971"
    and x: "x = of_int m * 2 powr of_int e"
    by blast
  have q: "x / 2 powi e = of_int m" by (simp add: x powi_powr)
  have "(of_int \<bar>m\<bar> :: real) < of_int (2 ^ 53)" using m by (simp only: of_int_less_iff)
  then have "\<bar>x / 2 powi e\<bar> < 2 ^ 53" by (simp add: q)
  moreover have "of_int \<lfloor>x / 2 powi e\<rfloor> = x / 2 powi e" by (simp add: q)
  ultimately show "isDouble x" using e by (auto simp: isDouble_def list_ex_iff set_exponents)
qed

lemma roundTiesToEven_le: "q \<le> of_int n \<Longrightarrow> roundTiesToEven q \<le> n"
proof -
  assume q: "q \<le> of_int n"
  have f: "\<lfloor>q\<rfloor> \<le> n" using q by (simp add: floor_le_iff)
  show ?thesis
  proof (cases "\<lfloor>q\<rfloor> = n")
    case True
    then have "q = of_int n" using q by (metis of_int_floor_le order_antisym)
    then show ?thesis by (simp add: roundTiesToEven_def)
  next
    case False
    then have "\<lfloor>q\<rfloor> + 1 \<le> n" using f by simp
    then show ?thesis by (auto simp: roundTiesToEven_def Let_def)
  qed
qed

lemma roundTiesToEven_ge: "of_int n \<le> q \<Longrightarrow> n \<le> roundTiesToEven q"
proof -
  assume "of_int n \<le> q"
  then have "n \<le> \<lfloor>q\<rfloor>" by (simp add: le_floor_iff)
  then show ?thesis by (auto simp: roundTiesToEven_def Let_def)
qed

lemma roundTiesToEven_less: "q < of_int n - 1 / 2 \<Longrightarrow> roundTiesToEven q < n"
proof -
  assume q: "q < of_int n - 1 / 2"
  have fl: "of_int \<lfloor>q\<rfloor> \<le> q" by simp
  have f: "\<lfloor>q\<rfloor> < n"
  proof -
    have "of_int \<lfloor>q\<rfloor> < (of_int n :: real)" using fl q by linarith
    then show ?thesis by simp
  qed
  have up: "\<lfloor>q\<rfloor> + 1 < n" if "1 / 2 \<le> q - of_int \<lfloor>q\<rfloor>"
  proof -
    have "of_int (\<lfloor>q\<rfloor> + 1) < (of_int n :: real)" using that q by simp
    then show ?thesis by (simp only: of_int_less_iff)
  qed
  show ?thesis
    using f up by (auto simp: roundTiesToEven_def Let_def not_less)
qed

lemma roundTiesToEven_ge_even:
  assumes q: "of_int n - 1 / 2 \<le> q" and ev: "even n"
  shows "n \<le> roundTiesToEven q"
proof (cases "of_int n \<le> q")
  case True
  then show ?thesis by (rule roundTiesToEven_ge)
next
  case False
  then have lt: "q < of_int n" by simp
  have fl: "\<lfloor>q\<rfloor> = n - 1"
  proof (rule floor_unique)
    show "of_int (n - 1) \<le> q" using q by simp
    show "q < of_int (n - 1) + 1" using lt by simp
  qed
  have frac: "1 / 2 \<le> q - of_int \<lfloor>q\<rfloor>" using q by (simp add: fl)
  have odd: "\<not> even \<lfloor>q\<rfloor>" using ev by (simp add: fl)
  show ?thesis
    using frac odd by (auto simp: roundTiesToEven_def Let_def fl)
qed

lemma ulpExponent_binade:
  assumes "2 powr of_int k \<le> x" and "x < 2 powr of_int (k + 1)" and "- 1022 \<le> k"
    and "k \<le> 1023"
  shows "ulpExponent x = k - 52"
proof -
  have "(0::real) < 2 powr of_int k" by simp
  then have pos: "0 < x" using assms(1) by (rule less_le_trans)
  have eq: "k - 52 + 53 = k + 1" by simp
  have lt: "x < 2 powi (k - 52 + 53)" unfolding eq using assms(2) by (simp only: powi_powr)
  have "find (\<lambda>e. \<bar>x\<bar> < 2 powi (e + 53)) exponents = Some (k - 52)"
    unfolding exponents_def
  proof (rule find_upto_least)
    show "- 1074 \<le> k - 52" using assms(3) by simp
    show "k - 52 \<le> 971" using assms(4) by simp
    show "\<bar>x\<bar> < 2 powi (k - 52 + 53)" using lt pos by (simp only: abs_of_pos)
    show "\<not> \<bar>x\<bar> < 2 powi (e + 53)" if "e < k - 52" for e
    proof -
      have "(2::real) powi (e + 53) \<le> 2 powi k"
        using that by (intro power_int_increasing) simp_all
      also have "\<dots> \<le> x" using assms(1) by (simp only: powi_powr)
      finally show ?thesis using pos by simp
    qed
  qed
  then show ?thesis by (simp add: ulpExponent_def)
qed

lemma roundDouble_binade:
  assumes "2 powr of_int k \<le> x" and "x < 2 powr of_int (k + 1)" and "- 1022 \<le> k"
    and "k \<le> 1023"
  shows "roundDouble x
     = of_int (roundTiesToEven (x / 2 powr of_int (k - 52))) * 2 powr of_int (k - 52)"
proof -
  show ?thesis by (simp only: roundDouble_powr ulpExponent_binade [OF assms])
qed

lemma powr_m53: "(2::real) powr - 53 = 1 / 2 ^ 53"
  and powr_m52: "(2::real) powr - 52 = 1 / 2 ^ 52"
  and powr_m51: "(2::real) powr - 51 = 1 / 2 ^ 51"
  by (simp_all add: powr_minus_divide)

lemma roundDouble_half_one:
  assumes "1 / 2 \<le> x" and "x < 1"
  shows "roundDouble x = of_int (roundTiesToEven (x * 2 ^ 53)) / 2 ^ 53"
proof -
  have "2 powr of_int (- 1) \<le> x" "x < 2 powr of_int (- 1 + 1)"
    using assms by (simp_all add: powr_minus_divide)
  from roundDouble_binade [OF this] show ?thesis by (simp add: powr_m53)
qed

lemma roundDouble_one_two:
  assumes "1 \<le> x" and "x < 2"
  shows "roundDouble x = of_int (roundTiesToEven (x * 2 ^ 52)) / 2 ^ 52"
proof -
  have "2 powr of_int 0 \<le> x" "x < 2 powr of_int (0 + 1)"
    using assms by simp_all
  from roundDouble_binade [OF this] show ?thesis by (simp add: powr_m52)
qed

lemma roundDouble_two_four:
  assumes "2 \<le> x" and "x < 4"
  shows "roundDouble x = of_int (roundTiesToEven (x * 2 ^ 51)) / 2 ^ 51"
proof -
  have "2 powr of_int 1 \<le> x" "x < 2 powr of_int (1 + 1)"
    using assms by simp_all
  from roundDouble_binade [OF this] show ?thesis by (simp add: powr_m51)
qed

lemma roundDouble_nonneg: "0 \<le> x \<Longrightarrow> 0 \<le> roundDouble x"
proof -
  assume "0 \<le> x"
  then have "of_int 0 \<le> x / 2 powr of_int (ulpExponent x)" by simp
  then have "0 \<le> roundTiesToEven (x / 2 powr of_int (ulpExponent x))"
    by (rule roundTiesToEven_ge)
  then show ?thesis by (simp add: roundDouble_powr)
qed

lemma roundDouble_small:
  assumes pos: "0 < x" and small: "x < 1 / 2"
  shows "roundDouble x \<le> 1 / 2"
proof -
  let ?e = "ulpExponent x"
  have "\<exists>e'. find (\<lambda>e. \<bar>x\<bar> < 2 powi (e + 53)) [- 1074 .. 971] = Some e'
      \<and> - 1074 \<le> e' \<and> e' \<le> - 54"
  proof (rule find_upto_le)
    show "(- 1074 :: int) \<le> - 54" by simp
    show "(- 54 :: int) \<le> 971" by simp
    show "\<bar>x\<bar> < 2 powi (- 54 + 53)" using pos small by simp
  qed
  then obtain e' where "find (\<lambda>e. \<bar>x\<bar> < 2 powi (e + 53)) exponents = Some e'"
    and "e' \<le> - 54"
    unfolding exponents_def by blast
  then have e: "?e \<le> - 54" by (simp add: ulpExponent_def)
  define n where "n = nat (- 1 - ?e)"
  have n: "int n = - 1 - ?e" using e by (simp add: n_def)
  have half: "(1 / 2 :: real) = of_int (2 ^ n) * 2 powr of_int ?e"
  proof -
    have "of_int (2 ^ n) * 2 powr of_int ?e = (2::real) powr (real n) * 2 powr of_int ?e"
      by (simp add: powr_realpow)
    also have "\<dots> = 2 powr (real n + of_int ?e)" by (simp add: powr_add)
    also have "real n + of_int ?e = (- 1 :: real)"
    proof -
      have "real n = of_int (int n)" by simp
      also have "\<dots> = of_int (- 1 - ?e)" by (simp only: n)
      finally show ?thesis by simp
    qed
    finally show ?thesis by (simp add: powr_minus_divide)
  qed
  have "x / 2 powr of_int ?e \<le> of_int (2 ^ n)"
  proof -
    have "x \<le> of_int (2 ^ n) * 2 powr of_int ?e" using small half by simp
    then show ?thesis by (simp add: divide_le_eq)
  qed
  then have "roundTiesToEven (x / 2 powr of_int ?e) \<le> 2 ^ n"
    by (rule roundTiesToEven_le)
  then have "(of_int (roundTiesToEven (x / 2 powr of_int ?e)) :: real) \<le> of_int (2 ^ n)"
    by (simp only: of_int_le_iff)
  then have le: "of_int (roundTiesToEven (x / 2 powr of_int ?e)) * 2 powr of_int ?e
      \<le> (of_int (2 ^ n) :: real) * 2 powr of_int ?e"
    by (rule mult_right_mono) simp
  have rd: "roundDouble x = of_int (roundTiesToEven (x / 2 powr of_int ?e)) * 2 powr of_int ?e"
    by (rule roundDouble_powr)
  show ?thesis unfolding rd by (subst half) (rule le)
qed

text \<open>
  The integer part of the rounded value, for a product between 0 and 3.  The three
  thresholds are the midpoints below 1, 2 and 3, where the nearest binary64 value
  changes; each midpoint is a tie that goes to the even significand, which is the
  integer.
\<close>

lemma floor_roundDouble_0:
  assumes "0 \<le> x" and "x < 1 - 1 / 2 ^ 54"
  shows "\<lfloor>roundDouble x\<rfloor> = 0"
proof -
  have lo: "0 \<le> roundDouble x" using assms(1) by (rule roundDouble_nonneg)
  have hi: "roundDouble x < 1"
  proof (cases "x < 1 / 2")
    case True
    show ?thesis
    proof (cases "x = 0")
      case True
      then show ?thesis by (simp add: roundDouble_def roundTiesToEven_def)
    next
      case False
      then have "0 < x" using assms(1) by simp
      then have "roundDouble x \<le> 1 / 2" using True by (rule roundDouble_small)
      then show ?thesis by simp
    qed
  next
    case False
    then have h: "1 / 2 \<le> x" "x < 1" using assms(2) by simp_all
    have "x * 2 ^ 53 < of_int (2 ^ 53) - 1 / 2" using assms(2) by simp
    then have "roundTiesToEven (x * 2 ^ 53) < 2 ^ 53" by (rule roundTiesToEven_less)
    then have "(of_int (roundTiesToEven (x * 2 ^ 53)) :: real) < of_int (2 ^ 53)"
      by (simp only: of_int_less_iff)
    then show ?thesis by (simp add: roundDouble_half_one [OF h])
  qed
  show ?thesis using lo hi by (simp add: floor_eq_iff)
qed

lemma floor_roundDouble_1:
  assumes "1 - 1 / 2 ^ 54 \<le> x" and "x < 2 - 1 / 2 ^ 53"
  shows "\<lfloor>roundDouble x\<rfloor> = 1"
proof -
  have lo: "1 \<le> roundDouble x"
  proof (cases "x < 1")
    case True
    have h: "1 / 2 \<le> x" "x < 1" using assms(1) True by simp_all
    have "of_int (2 ^ 53) - 1 / 2 \<le> x * 2 ^ 53" using assms(1) by simp
    then have "2 ^ 53 \<le> roundTiesToEven (x * 2 ^ 53)"
      by (rule roundTiesToEven_ge_even) simp
    then have "(of_int (2 ^ 53) :: real) \<le> of_int (roundTiesToEven (x * 2 ^ 53))"
      by (simp only: of_int_le_iff)
    then show ?thesis by (simp add: roundDouble_half_one [OF h])
  next
    case False
    then have h: "1 \<le> x" "x < 2" using assms(2) by simp_all
    have "of_int (2 ^ 52) \<le> x * 2 ^ 52" using h(1) by simp
    then have "2 ^ 52 \<le> roundTiesToEven (x * 2 ^ 52)" by (rule roundTiesToEven_ge)
    then have "(of_int (2 ^ 52) :: real) \<le> of_int (roundTiesToEven (x * 2 ^ 52))"
      by (simp only: of_int_le_iff)
    then show ?thesis by (simp add: roundDouble_one_two [OF h])
  qed
  have hi: "roundDouble x < 2"
  proof (cases "x < 1")
    case True
    have h: "1 / 2 \<le> x" "x < 1" using assms(1) True by simp_all
    have "x * 2 ^ 53 \<le> of_int (2 ^ 53)" using True by simp
    then have "roundTiesToEven (x * 2 ^ 53) \<le> 2 ^ 53" by (rule roundTiesToEven_le)
    then have "(of_int (roundTiesToEven (x * 2 ^ 53)) :: real) \<le> of_int (2 ^ 53)"
      by (simp only: of_int_le_iff)
    then show ?thesis by (simp add: roundDouble_half_one [OF h])
  next
    case False
    then have h: "1 \<le> x" "x < 2" using assms(2) by simp_all
    have "x * 2 ^ 52 < of_int (2 ^ 53) - 1 / 2" using assms(2) by simp
    then have "roundTiesToEven (x * 2 ^ 52) < 2 ^ 53" by (rule roundTiesToEven_less)
    then have "(of_int (roundTiesToEven (x * 2 ^ 52)) :: real) < of_int (2 ^ 53)"
      by (simp only: of_int_less_iff)
    then show ?thesis by (simp add: roundDouble_one_two [OF h])
  qed
  show ?thesis using lo hi by (simp add: floor_eq_iff)
qed

lemma floor_roundDouble_2:
  assumes "2 - 1 / 2 ^ 53 \<le> x" and "x < 3 - 1 / 2 ^ 52"
  shows "\<lfloor>roundDouble x\<rfloor> = 2"
proof -
  have lo: "2 \<le> roundDouble x"
  proof (cases "x < 2")
    case True
    have h: "1 \<le> x" "x < 2" using assms(1) True by simp_all
    have "of_int (2 ^ 53) - 1 / 2 \<le> x * 2 ^ 52" using assms(1) by simp
    then have "2 ^ 53 \<le> roundTiesToEven (x * 2 ^ 52)"
      by (rule roundTiesToEven_ge_even) simp
    then have "(of_int (2 ^ 53) :: real) \<le> of_int (roundTiesToEven (x * 2 ^ 52))"
      by (simp only: of_int_le_iff)
    then show ?thesis by (simp add: roundDouble_one_two [OF h])
  next
    case False
    then have h: "2 \<le> x" "x < 4" using assms(2) by simp_all
    have "of_int (2 ^ 52) \<le> x * 2 ^ 51" using h(1) by simp
    then have "2 ^ 52 \<le> roundTiesToEven (x * 2 ^ 51)" by (rule roundTiesToEven_ge)
    then have "(of_int (2 ^ 52) :: real) \<le> of_int (roundTiesToEven (x * 2 ^ 51))"
      by (simp only: of_int_le_iff)
    then show ?thesis by (simp add: roundDouble_two_four [OF h])
  qed
  have hi: "roundDouble x < 3"
  proof (cases "x < 2")
    case True
    have h: "1 \<le> x" "x < 2" using assms(1) True by simp_all
    have "x * 2 ^ 52 \<le> of_int (2 ^ 53)" using True by simp
    then have "roundTiesToEven (x * 2 ^ 52) \<le> 2 ^ 53" by (rule roundTiesToEven_le)
    then have "(of_int (roundTiesToEven (x * 2 ^ 52)) :: real) \<le> of_int (2 ^ 53)"
      by (simp only: of_int_le_iff)
    then show ?thesis by (simp add: roundDouble_one_two [OF h])
  next
    case False
    then have h: "2 \<le> x" "x < 4" using assms(2) by simp_all
    have "x * 2 ^ 51 < of_int (3 * 2 ^ 51) - 1 / 2" using assms(2) by simp
    then have "roundTiesToEven (x * 2 ^ 51) < 3 * 2 ^ 51" by (rule roundTiesToEven_less)
    then have "(of_int (roundTiesToEven (x * 2 ^ 51)) :: real) < of_int (3 * 2 ^ 51)"
      by (simp only: of_int_less_iff)
    then show ?thesis by (simp add: roundDouble_two_four [OF h])
  qed
  show ?thesis using lo hi by (simp add: floor_eq_iff)
qed

lemma floor_roundDouble_3:
  assumes "3 - 1 / 2 ^ 52 \<le> x" and "x \<le> 3"
  shows "\<lfloor>roundDouble x\<rfloor> = 3"
proof -
  have h: "2 \<le> x" "x < 4" using assms by simp_all
  have "of_int (3 * 2 ^ 51) - 1 / 2 \<le> x * 2 ^ 51" using assms(1) by simp
  then have "3 * 2 ^ 51 \<le> roundTiesToEven (x * 2 ^ 51)"
    by (rule roundTiesToEven_ge_even) simp
  then have lo: "(of_int (3 * 2 ^ 51) :: real) \<le> of_int (roundTiesToEven (x * 2 ^ 51))"
    by (simp only: of_int_le_iff)
  have "x * 2 ^ 51 \<le> of_int (3 * 2 ^ 51)" using assms(2) by simp
  then have "roundTiesToEven (x * 2 ^ 51) \<le> 3 * 2 ^ 51" by (rule roundTiesToEven_le)
  then have hi: "(of_int (roundTiesToEven (x * 2 ^ 51)) :: real) \<le> of_int (3 * 2 ^ 51)"
    by (simp only: of_int_le_iff)
  have "roundDouble x = 3" using lo hi by (simp add: roundDouble_two_four [OF h])
  then show ?thesis by simp
qed

text \<open>The largest binary64 value below 1 is \<open>1 - 2 ^ - 53\<close>.\<close>

lemma isDouble_less_one:
  assumes d: "isDouble x" and lt: "x < 1"
  shows "x \<le> 1 - 1 / 2 ^ 53"
proof -
  from d obtain m e :: int where m: "\<bar>m\<bar> < 2 ^ 53" and x: "x = of_int m * 2 powr of_int e"
    by (auto simp: isDouble_iff)
  show ?thesis
  proof (cases "- 53 \<le> e")
    case True
    define n where "n = nat (e + 53)"
    have n: "int n = e + 53" using True by (simp add: n_def)
    have "x * 2 ^ 53 = of_int m * (2 powr of_int e * 2 powr 53)"
      by (simp add: x)
    also have "2 powr of_int e * 2 powr 53 = (2::real) powr (of_int e + 53)"
      by (simp add: powr_add)
    also have "of_int e + 53 = real n"
    proof -
      have "real n = of_int (int n)" by simp
      also have "\<dots> = of_int (e + 53)" by (simp only: n)
      finally show ?thesis by simp
    qed
    also have "(2::real) powr real n = of_int (2 ^ n)" by (simp add: powr_realpow)
    finally have int: "x * 2 ^ 53 = of_int (m * 2 ^ n)" by simp
    have "x * 2 ^ 53 < of_int (2 ^ 53)" using lt by simp
    then have "m * 2 ^ n < 2 ^ 53" unfolding int by (simp only: of_int_less_iff)
    then have "m * 2 ^ n \<le> 2 ^ 53 - 1" by simp
    then have "(of_int (m * 2 ^ n) :: real) \<le> of_int (2 ^ 53 - 1)"
      by (simp only: of_int_le_iff)
    then have "x * 2 ^ 53 \<le> 2 ^ 53 - 1" unfolding int by simp
    then show ?thesis by (simp add: field_simps)
  next
    case False
    then have e: "e \<le> - 54" by simp
    have p: "(2::real) powr of_int e \<le> 2 powr (- 54)"
      using e by (simp del: powr_minus)
    have "x \<le> \<bar>x\<bar>" by simp
    also have "\<bar>x\<bar> = \<bar>of_int m\<bar> * 2 powr of_int e" by (simp add: x abs_mult)
    also have "\<dots> \<le> 2 ^ 53 * 2 powr of_int e"
    proof (rule mult_right_mono)
      have "(of_int \<bar>m\<bar> :: real) \<le> of_int (2 ^ 53)"
        using m by (simp only: of_int_le_iff)
      then show "\<bar>of_int m :: real\<bar> \<le> 2 ^ 53" by simp
    qed simp
    also have "\<dots> \<le> 2 ^ 53 * 2 powr (- 54)" using p by simp
    also have "\<dots> = 1 / 2" by (simp add: powr_minus_divide)
    finally show ?thesis by simp
  qed
qed

lemma isDouble_examples:
  "isDouble 0" "isDouble (1 / 2)" "isDouble (3 / 4)"
  "isDouble (6004799503160661 / 2 ^ 54)" "isDouble (6004799503160661 / 2 ^ 53)"
proof -
  have "\<bar>0::int\<bar> < 2 ^ 53 \<and> - 1074 \<le> (0::int) \<and> (0::int) \<le> 971
      \<and> (0::real) = of_int 0 * 2 powr of_int 0" by simp
  then show "isDouble 0" unfolding isDouble_iff by blast
  have "\<bar>1::int\<bar> < 2 ^ 53 \<and> - 1074 \<le> (- 1 :: int) \<and> (- 1 :: int) \<le> 971
      \<and> (1 / 2 :: real) = of_int 1 * 2 powr of_int (- 1)" by (simp add: powr_minus_divide)
  then show "isDouble (1 / 2)" unfolding isDouble_iff by blast
  have "\<bar>3::int\<bar> < 2 ^ 53 \<and> - 1074 \<le> (- 2 :: int) \<and> (- 2 :: int) \<le> 971
      \<and> (3 / 4 :: real) = of_int 3 * 2 powr of_int (- 2)" by (simp add: powr_minus_divide)
  then show "isDouble (3 / 4)" unfolding isDouble_iff by blast
  have "\<bar>6004799503160661::int\<bar> < 2 ^ 53 \<and> - 1074 \<le> (- 54 :: int) \<and> (- 54 :: int) \<le> 971
      \<and> (6004799503160661 / 2 ^ 54 :: real) = of_int 6004799503160661 * 2 powr of_int (- 54)"
    by (simp add: powr_minus_divide)
  then show "isDouble (6004799503160661 / 2 ^ 54)" unfolding isDouble_iff by blast
  have "\<bar>6004799503160661::int\<bar> < 2 ^ 53 \<and> - 1074 \<le> (- 53 :: int) \<and> (- 53 :: int) \<le> 971
      \<and> (6004799503160661 / 2 ^ 53 :: real) = of_int 6004799503160661 * 2 powr of_int (- 53)"
    by (simp add: powr_minus_divide)
  then show "isDouble (6004799503160661 / 2 ^ 53)" unfolding isDouble_iff by blast
qed


text \<open>
  The integer part of the binary64 product \<open>rnd * 3\<close> for \<open>rnd\<close> in \<open>[0, 1)\<close>.  The
  product rounds up to 1 from the midpoint \<open>1 - 2 ^ - 54\<close> on and up to 2 from the
  midpoint \<open>2 - 2 ^ - 53\<close> on, both ties going to the even significand; \<open>lowThird\<close> and
  \<open>highThird\<close> are these midpoints divided by 3.  A binary64 \<open>rnd\<close> below 1 is at most
  \<open>1 - 2 ^ - 53\<close>, and its product stays below the midpoint \<open>3 - 2 ^ - 52\<close> under 3.
\<close>

lemma floor_mulDouble_3:
  assumes "0 \<le> rnd" and "rnd < 1"
  shows "\<lfloor>mulDouble rnd 3\<rfloor>
     = (if rnd < lowThird then 0 else if rnd < highThird then 1
        else if rnd * 3 < 3 - 1 / 2 ^ 52 then 2 else 3)"
proof -
  have x0: "0 \<le> rnd * 3" and x3: "rnd * 3 \<le> 3" using assms by simp_all
  have lo: "rnd < lowThird \<longleftrightarrow> rnd * 3 < 1 - 1 / 2 ^ 54"
    by (simp add: lowThird_def field_simps)
  have hi: "rnd < highThird \<longleftrightarrow> rnd * 3 < 2 - 1 / 2 ^ 53"
    by (simp add: highThird_def field_simps)
  consider "rnd * 3 < 1 - 1 / 2 ^ 54"
    | "1 - 1 / 2 ^ 54 \<le> rnd * 3" "rnd * 3 < 2 - 1 / 2 ^ 53"
    | "2 - 1 / 2 ^ 53 \<le> rnd * 3" "rnd * 3 < 3 - 1 / 2 ^ 52"
    | "3 - 1 / 2 ^ 52 \<le> rnd * 3"
    by linarith
  then show ?thesis
  proof cases
    case 1
    then show ?thesis
      unfolding mulDouble_def lo hi using floor_roundDouble_0 [OF x0 1] by simp
  next
    case 2
    then show ?thesis
      unfolding mulDouble_def lo hi using floor_roundDouble_1 [OF 2] by simp
  next
    case 3
    have "\<not> rnd * 3 < 1 - 1 / 2 ^ 54" using 3(1) by simp
    then show ?thesis
      unfolding mulDouble_def lo hi using floor_roundDouble_2 [OF 3] 3 by simp
  next
    case 4
    have "\<not> rnd * 3 < 1 - 1 / 2 ^ 54" "\<not> rnd * 3 < 2 - 1 / 2 ^ 53" using 4 by simp_all
    then show ?thesis
      unfolding mulDouble_def lo hi using floor_roundDouble_3 [OF 4 x3] 4 by simp
  qed
qed

lemma floor_mulDouble_3_range:
  assumes "0 \<le> rnd" and "rnd < 1"
  shows "0 \<le> \<lfloor>mulDouble rnd 3\<rfloor> \<and> \<lfloor>mulDouble rnd 3\<rfloor> \<le> 3"
  unfolding floor_mulDouble_3 [OF assms] by simp

lemma floor_mulDouble_3_double:
  assumes d: "isDouble rnd" and r0: "0 \<le> rnd" and r1: "rnd < 1"
  shows "\<lfloor>mulDouble rnd 3\<rfloor>
     = (if rnd < lowThird then 0 else if rnd < highThird then 1 else 2)"
proof -
  have "rnd \<le> 1 - 1 / 2 ^ 53" using d r1 by (rule isDouble_less_one)
  then have "rnd * 3 < 3 - 1 / 2 ^ 52" by simp
  then show ?thesis unfolding floor_mulDouble_3 [OF r0 r1] by simp
qed

lemma thirds_literal:
  "lowThird = 6004799503160661 / 2 ^ 54" "highThird = 6004799503160661 / 2 ^ 53"
  by (simp_all add: lowThird_def highThird_def)

lemma thirds_close:
  "\<bar>lowThird - 1 / 3\<bar> < 1 / 2 ^ 54" "\<bar>highThird - 2 / 3\<bar> < 1 / 2 ^ 54"
  by (simp_all add: lowThird_def highThird_def)

lemma thirds_order: "0 < lowThird" "lowThird < highThird" "highThird < 1"
  by (simp_all add: lowThird_def highThird_def)


section \<open>The move selector\<close>

text \<open>The initial board, \<open>Array(9).fill(null)\<close>.\<close>

definition emptyBoard :: board where
  "emptyBoard = replicate 9 None"

text \<open>A position two moves before the end, with \<open>O\<close> to move.\<close>

definition lateBoard :: board where
  "lateBoard = [Some PlayerX, Some PlayerO, Some PlayerX,
                Some PlayerO, Some PlayerX, Some PlayerO,
                None, None, Some PlayerO]"

lemma all_moves_all_empty:
  assumes "length (availableMoves board) = length board"
  shows "\<forall>i<length board. board ! i = None"
proof -
  have "length (filter (\<lambda>i. board ! i = None) [0..<length board])
      + length (filter (\<lambda>i. \<not> board ! i = None) [0..<length board])
      = length [0..<length board]"
    by (rule sum_length_filter_compl)
  then have "filter (\<lambda>i. \<not> board ! i = None) [0..<length board] = []"
    using assms by (simp add: availableMoves_def)
  then show ?thesis by (simp add: filter_empty_conv)
qed

lemma length_availableMoves_le: "length (availableMoves board) \<le> length board"
  using length_filter_le [of "\<lambda>i. board ! i = None" "[0..<length board]"]
  by (simp add: availableMoves_def)

lemma preferred_bound: "k < 9 \<Longrightarrow> preferred ! k < 9"
proof -
  assume "k < 9"
  then have "k \<in> {0, 1, 2, 3, 4, 5, 6, 7, 8}" by auto
  then show ?thesis by (auto simp: preferred_def)
qed

lemma winner_not_all_empty:
  assumes "winner (getWinnerInfo board) \<noteq> None"
  shows "length (availableMoves board) \<noteq> length board"
proof
  assume "length (availableMoves board) = length board"
  then have empty: "\<forall>i<length board. board ! i = None" by (rule all_moves_all_empty)
  from assms obtain l where "lineMatches board l"
    unfolding getWinnerInfo_def winner_scanLines_iff by blast
  then have "cellAt board (fst l) \<noteq> None" by (rule lineMatches_winner)
  then show False using empty by (simp add: cellAt_def split: if_splits)
qed

lemma length_preferred: "length preferred = 9"
  by (simp add: preferred_def)

lemma pickBestAiMove_opening:
  assumes "length (availableMoves board) = 9"
  shows "pickBestAiMove rnd board
     = (if 0 \<le> \<lfloor>mulDouble rnd 3\<rfloor> \<and> \<lfloor>mulDouble rnd 3\<rfloor> < 9
        then Index (preferred ! nat \<lfloor>mulDouble rnd 3\<rfloor>) else Undefined)"
proof -
  have "availableMoves board \<noteq> []" using assms by auto
  then show ?thesis
    using assms by (simp add: pickBestAiMove_def length_preferred Let_def del: floor_less_iff)
qed

text \<open>
  Claim C5.  On a 9-cell board, an index that \<open>pickBestAiMove\<close> returns is in the
  range 0 to 8 and the cell at that index is empty in the board it was given.
\<close>

theorem pickBestAiMove_index_empty:
  assumes len: "length board = 9" and pick: "pickBestAiMove rnd board = Index i"
  shows "i \<le> 8 \<and> i < length board \<and> board ! i = None"
proof (cases "length (availableMoves board) = 9")
  case True
  then have empty: "\<forall>i<9. board ! i = None"
    using all_moves_all_empty [of board] len by simp
  from pick have k: "0 \<le> \<lfloor>mulDouble rnd 3\<rfloor> \<and> \<lfloor>mulDouble rnd 3\<rfloor> < 9"
    and i: "i = preferred ! nat \<lfloor>mulDouble rnd 3\<rfloor>"
    unfolding pickBestAiMove_opening [OF True] by (simp_all split: if_splits)
  from k have "nat \<lfloor>mulDouble rnd 3\<rfloor> < 9" by linarith
  then have "i < 9" unfolding i by (rule preferred_bound)
  then show ?thesis using empty len by simp
next
  case False
  have ne: "availableMoves board \<noteq> []"
    using pick by (auto simp: pickBestAiMove_def)
  have "index (minimax board True 0) = Some i"
    using pick by (simp add: pickBestAiMove_search [OF ne False] split: option.splits)
  then have "i \<in> set (availableMoves board)"
    using minimax_index_in_moves by blast
  then show ?thesis using len by (simp add: availableMoves_iff)
qed

theorem pickBestAiMove_index_empty_witness:
  "length lateBoard = 9 \<and> pickBestAiMove 0 lateBoard = Index 6
   \<and> (6::nat) \<le> 8 \<and> lateBoard ! 6 = None"
proof -
  have h: "length lateBoard = 9" "pickBestAiMove 0 lateBoard = Index 6"
    by code_simp+
  from pickBestAiMove_index_empty [OF h] h show ?thesis by simp
qed

text \<open>
  Claim C6, as stated, fails.  \<open>xRow\<close> has a completed row and four empty cells; the
  search stops at the root with a result that has no \<open>index\<close>, so the selector
  returns \<open>undefined\<close>: not a cell index, although the board has an empty cell.
\<close>

theorem pickBestAiMove_won_board_undefined:
  "length xRow = 9 \<and> xRow ! 5 = None \<and> pickBestAiMove 0 xRow = Undefined"
  by code_simp

text \<open>
  Claim C6, amended.  On a 9-cell board the selector returns \<open>null\<close> exactly when
  the board has no empty cell.  On a board with an empty cell and no completed line it
  returns a cell index.  On a board with an empty cell and a completed line, which the
  component never hands to it (line 276), it returns \<open>undefined\<close>.
\<close>

theorem pickBestAiMove_null_iff_full:
  assumes len: "length board = 9" and r0: "0 \<le> rnd" and r1: "rnd < 1"
  shows "(pickBestAiMove rnd board = Null \<longleftrightarrow> (\<forall>i<9. board ! i \<noteq> None))
       \<and> ((\<exists>i<9. board ! i = None) \<and> winner (getWinnerInfo board) = None
            \<longrightarrow> (\<exists>i. pickBestAiMove rnd board = Index i))
       \<and> ((\<exists>i<9. board ! i = None) \<and> winner (getWinnerInfo board) \<noteq> None
            \<longrightarrow> pickBestAiMove rnd board = Undefined)"
proof -
  have full: "isBoardFull board \<longleftrightarrow> (\<forall>i<9. board ! i \<noteq> None)"
    using len by (simp add: isBoardFull_nth)
  have moves: "availableMoves board = [] \<longleftrightarrow> isBoardFull board"
    using notFull_moves moves_notFull by blast
  have null: "pickBestAiMove rnd board = Null \<longleftrightarrow> availableMoves board = []"
    by (auto simp: pickBestAiMove_def Let_def split: option.splits)
  have idx: "\<exists>i. pickBestAiMove rnd board = Index i"
    if e: "\<exists>i<9. board ! i = None" and nowin: "winner (getWinnerInfo board) = None"
  proof (cases "length (availableMoves board) = 9")
    case True
    have "0 \<le> \<lfloor>mulDouble rnd 3\<rfloor> \<and> \<lfloor>mulDouble rnd 3\<rfloor> < 9"
      using floor_mulDouble_3_range [OF r0 r1] by linarith
    then show ?thesis
      by (simp only: pickBestAiMove_opening [OF True] simp_thms if_True) blast
  next
    case False
    have notfull: "\<not> isBoardFull board" using e full by auto
    then have ne: "availableMoves board \<noteq> []" by (rule notFull_moves)
    from nonterminal_index [OF nowin notfull, of True 0]
    show ?thesis by (auto simp: pickBestAiMove_search [OF ne False])
  qed
  have undef: "pickBestAiMove rnd board = Undefined"
    if e: "\<exists>i<9. board ! i = None" and win: "winner (getWinnerInfo board) \<noteq> None"
  proof -
    have n9: "length (availableMoves board) \<noteq> 9"
      using winner_not_all_empty [OF win] len by simp
    have notfull: "\<not> isBoardFull board" using e full by auto
    then have ne: "availableMoves board \<noteq> []" by (rule notFull_moves)
    show ?thesis
      using win by (simp add: pickBestAiMove_search [OF ne n9] minimax_terminal_win)
  qed
  show ?thesis using null moves full idx undef by blast
qed

theorem pickBestAiMove_null_iff_full_witness:
  "length columnBoard = 9 \<and> (0::real) \<le> 0 \<and> (0::real) < 1
   \<and> columnBoard ! 2 = None \<and> winner (getWinnerInfo columnBoard) = None
   \<and> (\<exists>i. pickBestAiMove 0 columnBoard = Index i) \<and> pickBestAiMove 0 columnBoard \<noteq> Null"
proof -
  have h: "length columnBoard = 9" "(0::real) \<le> 0" "(0::real) < 1"
    by (simp_all add: columnBoard_def)
  have e: "(2::nat) < 9 \<and> columnBoard ! 2 = None" by (simp add: columnBoard_def)
  then have ex: "\<exists>i<9. columnBoard ! i = None" by blast
  from pickBestAiMove_null_iff_full [OF h] ex columnBoard_facts(1) e h
  show ?thesis by auto
qed


section \<open>The opening move\<close>

text \<open>The cells of the grid by kind, as the specification ranks them.\<close>

definition center :: nat where "center = 4"
definition corners :: "nat set" where "corners = {0, 2, 6, 8}"
definition edges :: "nat set" where "edges = {1, 3, 5, 7}"

lemma availableMoves_emptyBoard: "length (availableMoves emptyBoard) = 9"
  by (simp add: availableMoves_def emptyBoard_def cong: filter_cong)

lemma opening_pick_double:
  assumes d: "isDouble rnd" and r0: "0 \<le> rnd" and r1: "rnd < 1"
  shows "pickBestAiMove rnd emptyBoard = Index (preferred ! nat \<lfloor>mulDouble rnd 3\<rfloor>)
       \<and> \<lfloor>mulDouble rnd 3\<rfloor> = (if rnd < lowThird then 0 else if rnd < highThird then 1 else 2)"
proof -
  have k: "\<lfloor>mulDouble rnd 3\<rfloor> = (if rnd < lowThird then 0 else if rnd < highThird then 1 else 2)"
    using d r0 r1 by (rule floor_mulDouble_3_double)
  then have "0 \<le> \<lfloor>mulDouble rnd 3\<rfloor> \<and> \<lfloor>mulDouble rnd 3\<rfloor> < 9" by simp
  then have "pickBestAiMove rnd emptyBoard = Index (preferred ! nat \<lfloor>mulDouble rnd 3\<rfloor>)"
    by (simp only: pickBestAiMove_opening [OF availableMoves_emptyBoard] simp_thms if_True)
  then show ?thesis using k by blast
qed

text \<open>
  Claim C8.  On the entirely empty board the selector returns, without consulting the
  search, the entry of the preference list at position \<open>\<lfloor>Math.random() * 3\<rfloor>\<close>, one of
  its first three, for every binary64 value of the random number in \<open>[0, 1)\<close>.  The
  list is ordered center, corners, edges.  The three entries are returned on the three
  intervals that \<open>lowThird\<close> and \<open>highThird\<close> cut out of \<open>[0, 1)\<close>; these bounds are
  within \<open>2 ^ - 54\<close> of one third and two thirds, so a uniform random number gives each
  entry with probability one third up to the rounding of the product.  The result is a
  center or corner cell and never an edge cell.
\<close>

theorem opening_move_center_or_corner:
  assumes d: "isDouble rnd" and r0: "0 \<le> rnd" and r1: "rnd < 1"
  shows "pickBestAiMove rnd emptyBoard = Index (take 3 preferred ! nat \<lfloor>mulDouble rnd 3\<rfloor>)
       \<and> nat \<lfloor>mulDouble rnd 3\<rfloor> < 3
       \<and> hd preferred = center \<and> set (take 4 (drop 1 preferred)) = corners
       \<and> set (drop 5 preferred) = edges \<and> length preferred = 9
       \<and> (rnd < lowThird \<longrightarrow> pickBestAiMove rnd emptyBoard = Index 4)
       \<and> (lowThird \<le> rnd \<and> rnd < highThird \<longrightarrow> pickBestAiMove rnd emptyBoard = Index 0)
       \<and> (highThird \<le> rnd \<longrightarrow> pickBestAiMove rnd emptyBoard = Index 2)
       \<and> \<bar>lowThird - 1 / 3\<bar> < 1 / 2 ^ 54 \<and> \<bar>highThird - 2 / 3\<bar> < 1 / 2 ^ 54
       \<and> pickBestAiMove rnd emptyBoard \<in> Index ` ({center} \<union> corners)
       \<and> pickBestAiMove rnd emptyBoard \<notin> Index ` edges"
proof -
  from opening_pick_double [OF d r0 r1]
  have pick: "pickBestAiMove rnd emptyBoard = Index (preferred ! nat \<lfloor>mulDouble rnd 3\<rfloor>)"
    and k: "\<lfloor>mulDouble rnd 3\<rfloor> = (if rnd < lowThird then 0 else if rnd < highThird then 1 else 2)"
    by simp_all
  have n3: "nat \<lfloor>mulDouble rnd 3\<rfloor> < 3" unfolding k by simp
  have tk: "pickBestAiMove rnd emptyBoard = Index (take 3 preferred ! nat \<lfloor>mulDouble rnd 3\<rfloor>)"
    using n3 by (simp add: pick)
  have lst: "hd preferred = center \<and> set (take 4 (drop 1 preferred)) = corners
       \<and> set (drop 5 preferred) = edges \<and> length preferred = 9"
    by (auto simp: preferred_def center_def corners_def edges_def)
  have lt: "lowThird < highThird" by (rule thirds_order)
  have thirds: "(rnd < lowThird \<longrightarrow> pickBestAiMove rnd emptyBoard = Index 4)
       \<and> (lowThird \<le> rnd \<and> rnd < highThird \<longrightarrow> pickBestAiMove rnd emptyBoard = Index 0)
       \<and> (highThird \<le> rnd \<longrightarrow> pickBestAiMove rnd emptyBoard = Index 2)"
    using lt unfolding pick k by (simp add: preferred_def)
  have close: "\<bar>lowThird - 1 / 3\<bar> < 1 / 2 ^ 54 \<and> \<bar>highThird - 2 / 3\<bar> < 1 / 2 ^ 54"
    using thirds_close by blast
  have "pickBestAiMove rnd emptyBoard \<in> Index ` ({center} \<union> corners)
       \<and> pickBestAiMove rnd emptyBoard \<notin> Index ` edges"
    unfolding pick k by (simp add: preferred_def center_def corners_def edges_def)
  then show ?thesis using tk n3 lst thirds close by blast
qed

theorem opening_move_center_or_corner_witness:
  "isDouble (6004799503160661 / 2 ^ 53) \<and> (0::real) \<le> 6004799503160661 / 2 ^ 53
   \<and> (6004799503160661 / 2 ^ 53 :: real) < 1
   \<and> highThird \<le> 6004799503160661 / 2 ^ 53
   \<and> pickBestAiMove (6004799503160661 / 2 ^ 53) emptyBoard = Index 2
   \<and> pickBestAiMove (6004799503160661 / 2 ^ 53) emptyBoard \<notin> Index ` edges
   \<and> isDouble (6004799503160661 / 2 ^ 54) \<and> (0::real) \<le> 6004799503160661 / 2 ^ 54
   \<and> (6004799503160661 / 2 ^ 54 :: real) < 1
   \<and> lowThird \<le> 6004799503160661 / 2 ^ 54 \<and> 6004799503160661 / 2 ^ 54 < highThird
   \<and> pickBestAiMove (6004799503160661 / 2 ^ 54) emptyBoard = Index 0"
proof -
  have h: "isDouble (6004799503160661 / 2 ^ 53)" "(0::real) \<le> 6004799503160661 / 2 ^ 53"
    "(6004799503160661 / 2 ^ 53 :: real) < 1"
    by (rule isDouble_examples) simp_all
  have g: "isDouble (6004799503160661 / 2 ^ 54)" "(0::real) \<le> 6004799503160661 / 2 ^ 54"
    "(6004799503160661 / 2 ^ 54 :: real) < 1"
    by (rule isDouble_examples) simp_all
  have t: "highThird \<le> 6004799503160661 / 2 ^ 53"
    "lowThird \<le> 6004799503160661 / 2 ^ 54" "6004799503160661 / 2 ^ 54 < highThird"
    by (simp_all add: thirds_literal)
  from opening_move_center_or_corner [OF h] t(1)
  have a: "pickBestAiMove (6004799503160661 / 2 ^ 53) emptyBoard = Index 2"
    and b: "pickBestAiMove (6004799503160661 / 2 ^ 53) emptyBoard \<notin> Index ` edges"
    by blast+
  from opening_move_center_or_corner [OF g] t(2,3)
  have c: "pickBestAiMove (6004799503160661 / 2 ^ 54) emptyBoard = Index 0"
    by blast
  show ?thesis using h g t a b c by blast
qed

text \<open>
  Claim C10.  Over all binary64 values of the random number in \<open>[0, 1)\<close>, the opening
  moves on the entirely empty board are exactly 4, 0 and 2: each of them is returned
  for some value, and the bottom corners 6 and 8 (and every other cell) for none.
\<close>

theorem opening_moves_exactly_4_0_2:
  "(\<lambda>rnd. pickBestAiMove rnd emptyBoard) ` {rnd. isDouble rnd \<and> 0 \<le> rnd \<and> rnd < 1}
     = {Index 4, Index 0, Index 2}
   \<and> Index 6 \<notin> (\<lambda>rnd. pickBestAiMove rnd emptyBoard) ` {rnd. isDouble rnd \<and> 0 \<le> rnd \<and> rnd < 1}
   \<and> Index 8 \<notin> (\<lambda>rnd. pickBestAiMove rnd emptyBoard) ` {rnd. isDouble rnd \<and> 0 \<le> rnd \<and> rnd < 1}"
proof -
  let ?D = "{rnd. isDouble rnd \<and> 0 \<le> rnd \<and> rnd < 1}"
  have val: "pickBestAiMove rnd emptyBoard
      = (if rnd < lowThird then Index 4 else if rnd < highThird then Index 0 else Index 2)"
    if "rnd \<in> ?D" for rnd
  proof -
    from that have "isDouble rnd" "0 \<le> rnd" "rnd < 1" by simp_all
    from opening_pick_double [OF this] show ?thesis by (simp add: preferred_def)
  qed
  have sub: "pickBestAiMove rnd emptyBoard \<in> {Index 4, Index 0, Index 2}" if "rnd \<in> ?D" for rnd
    unfolding val [OF that] by simp
  have m0: "(0::real) \<in> ?D" and m1: "(1 / 2 :: real) \<in> ?D" and m2: "(3 / 4 :: real) \<in> ?D"
    by (simp_all add: isDouble_examples)
  have p4: "pickBestAiMove 0 emptyBoard = Index 4"
    unfolding val [OF m0] by (simp add: lowThird_def)
  have p0: "pickBestAiMove (1 / 2) emptyBoard = Index 0"
    unfolding val [OF m1] by (simp add: lowThird_def highThird_def)
  have p2: "pickBestAiMove (3 / 4) emptyBoard = Index 2"
    unfolding val [OF m2] by (simp add: lowThird_def highThird_def)
  have "Index 4 \<in> (\<lambda>rnd. pickBestAiMove rnd emptyBoard) ` ?D"
    using m0 p4 by (metis (no_types, lifting) image_eqI)
  moreover have "Index 0 \<in> (\<lambda>rnd. pickBestAiMove rnd emptyBoard) ` ?D"
    using m1 p0 by (metis (no_types, lifting) image_eqI)
  moreover have "Index 2 \<in> (\<lambda>rnd. pickBestAiMove rnd emptyBoard) ` ?D"
    using m2 p2 by (metis (no_types, lifting) image_eqI)
  ultimately have sup: "{Index 4, Index 0, Index 2} \<subseteq> (\<lambda>rnd. pickBestAiMove rnd emptyBoard) ` ?D"
    by simp
  have eq: "(\<lambda>rnd. pickBestAiMove rnd emptyBoard) ` ?D = {Index 4, Index 0, Index 2}"
    using sub sup by blast
  show ?thesis unfolding eq by simp
qed

theorem opening_moves_exactly_4_0_2_witness:
  "isDouble (1 / 2) \<and> (0::real) \<le> 1 / 2 \<and> (1 / 2 :: real) < 1
   \<and> pickBestAiMove (1 / 2) emptyBoard \<in> {Index 4, Index 0, Index 2}
   \<and> pickBestAiMove (1 / 2) emptyBoard \<noteq> Index 6
   \<and> pickBestAiMove (1 / 2) emptyBoard \<noteq> Index 8"
proof -
  have h: "isDouble (1 / 2) \<and> (0::real) \<le> 1 / 2 \<and> (1 / 2 :: real) < 1"
    by (simp add: isDouble_examples)
  then have "(1 / 2 :: real) \<in> {rnd. isDouble rnd \<and> 0 \<le> rnd \<and> rnd < 1}" by simp
  then have "pickBestAiMove (1 / 2) emptyBoard
      \<in> (\<lambda>rnd. pickBestAiMove rnd emptyBoard) ` {rnd. isDouble rnd \<and> 0 \<le> rnd \<and> rnd < 1}"
    by (rule imageI)
  with opening_moves_exactly_4_0_2 h show ?thesis by auto
qed


section \<open>Terminal scores and depth\<close>

text \<open>
  The nodes of the search that \<open>pickBestAiMove\<close> starts on \<open>start\<close> with
  \<open>minimax(board, true, 0)\<close>: the root itself, and for every node that is not terminal
  the boards its loop builds, one per available move, each called with the other side
  to move and \<open>depth + 1\<close>.
\<close>

inductive searchNode :: "board \<Rightarrow> board \<Rightarrow> bool \<Rightarrow> int \<Rightarrow> bool" for start :: board where
  atRoot: "searchNode start start True 0"
| maxChild: "searchNode start board True depth \<Longrightarrow> winner (getWinnerInfo board) = None
    \<Longrightarrow> \<not> isBoardFull board \<Longrightarrow> idx \<in> set (availableMoves board)
    \<Longrightarrow> searchNode start (place board idx PlayerO) False (depth + 1)"
| minChild: "searchNode start board False depth \<Longrightarrow> winner (getWinnerInfo board) = None
    \<Longrightarrow> \<not> isBoardFull board \<Longrightarrow> idx \<in> set (availableMoves board)
    \<Longrightarrow> searchNode start (place board idx PlayerX) True (depth + 1)"

lemma searchNode_depth:
  "searchNode start board mx depth \<Longrightarrow>
     depth = int (emptyCount start) - int (emptyCount board) \<and> emptyCount board \<le> emptyCount start"
proof (induction rule: searchNode.induct)
  case atRoot
  then show ?case by simp
next
  case (maxChild board depth idx)
  then have "Suc (emptyCount (place board idx PlayerO)) = emptyCount board"
    by (simp add: availableMoves_iff emptyCount_place_Suc)
  with maxChild.IH show ?case by linarith
next
  case (minChild board depth idx)
  then have "Suc (emptyCount (place board idx PlayerX)) = emptyCount board"
    by (simp add: availableMoves_iff emptyCount_place_Suc)
  with minChild.IH show ?case by linarith
qed

text \<open>
  The score as the specification words it (section 4.2), with no depth handed down:
  the depth of a node is measured, the number of plies from the start position to it,
  which is the number of marks placed since.  A terminal node scores \<open>10 - depth\<close> for
  a win of \<open>O\<close>, \<open>depth - 10\<close> for a win of \<open>X\<close> and \<open>0\<close> for a draw; a maximizing node
  takes the highest score of its children and a minimizing node the lowest.
\<close>

definition plies :: "board \<Rightarrow> board \<Rightarrow> int" where
  "plies start board = int (emptyCount start) - int (emptyCount board)"

function specScore :: "board \<Rightarrow> board \<Rightarrow> bool \<Rightarrow> int" where
  "specScore start board isMaximizing =
     (let w = winner (getWinnerInfo board) in
      if w = Some PlayerO then 10 - plies start board
      else if w = Some PlayerX then plies start board - 10
      else if isBoardFull board then 0
      else if isMaximizing then
        Max (set (map (\<lambda>idx. specScore start (place board idx PlayerO) False)
                   (availableMoves board)))
      else
        Min (set (map (\<lambda>idx. specScore start (place board idx PlayerX) True)
                   (availableMoves board))))"
  by pat_completeness auto
termination
proof (relation "measure (\<lambda>(start, board, isMaximizing). emptyCount board)")
  show "wf (measure (\<lambda>(start, board, isMaximizing). emptyCount board))"
    by simp
next
  fix start board :: board and isMaximizing :: bool and w :: cell and idx :: nat
  assume "idx \<in> set (availableMoves board)"
  then have "idx < length board \<and> board ! idx = None"
    by (simp add: availableMoves_iff)
  then show "((start, place board idx PlayerO, False), start, board, isMaximizing)
      \<in> measure (\<lambda>(start, board, isMaximizing). emptyCount board)"
    by (simp add: emptyCount_place)
next
  fix start board :: board and isMaximizing :: bool and w :: cell and idx :: nat
  assume "idx \<in> set (availableMoves board)"
  then have "idx < length board \<and> board ! idx = None"
    by (simp add: availableMoves_iff)
  then show "((start, place board idx PlayerX, True), start, board, isMaximizing)
      \<in> measure (\<lambda>(start, board, isMaximizing). emptyCount board)"
    by (simp add: emptyCount_place)
qed

declare specScore.simps [simp del]

lemma specScore_win:
  "winner (getWinnerInfo board) = Some PlayerO \<Longrightarrow>
     specScore start board mx = 10 - plies start board"
  "winner (getWinnerInfo board) = Some PlayerX \<Longrightarrow>
     specScore start board mx = plies start board - 10"
  by (subst specScore.simps, simp)+

lemma specScore_full:
  "winner (getWinnerInfo board) = None \<Longrightarrow> isBoardFull board \<Longrightarrow>
     specScore start board mx = 0"
  by (subst specScore.simps) simp

lemma specScore_max:
  "winner (getWinnerInfo board) = None \<Longrightarrow> \<not> isBoardFull board \<Longrightarrow>
     specScore start board True
       = Max ((\<lambda>idx. specScore start (place board idx PlayerO) False)
               ` set (availableMoves board))"
  by (subst specScore.simps) simp

lemma specScore_min:
  "winner (getWinnerInfo board) = None \<Longrightarrow> \<not> isBoardFull board \<Longrightarrow>
     specScore start board False
       = Min ((\<lambda>idx. specScore start (place board idx PlayerX) True)
               ` set (availableMoves board))"
  by (subst specScore.simps) simp

lemma plies_place:
  "idx \<in> set (availableMoves board) \<Longrightarrow> plies start (place board idx p) = plies start board + 1"
  using emptyCount_place_Suc [of idx board p] by (simp add: plies_def availableMoves_iff)

lemma minimax_specScore:
  "depth = plies start board \<Longrightarrow>
   score (minimax board mx depth) = Fin (specScore start board mx)"
proof (induction board mx depth rule: minimax.induct)
  case (1 board isMaximizing depth)
  show ?case
  proof (cases "winner (getWinnerInfo board) = None")
    case False
    then have "winner (getWinnerInfo board) = Some PlayerO
        \<or> winner (getWinnerInfo board) = Some PlayerX"
      by (metis option.exhaust player.exhaust)
    then show ?thesis
      using "1.prems" False
      by (auto simp: minimax_terminal_win scoreTerminal_def specScore_win)
  next
    case nowin: True
    show ?thesis
    proof (cases "isBoardFull board")
      case True
      then show ?thesis using nowin by (simp add: minimax_terminal_full specScore_full)
    next
      case notfull: False
      show ?thesis
      proof (cases isMaximizing)
        case True
        let ?f = "\<lambda>idx. specScore start (place board idx PlayerO) False"
        have child: "childScore board True depth j = Fin (?f j)"
          if j: "j \<in> set (availableMoves board)" for j
          using "1.IH"(1) [OF refl _ notfull refl True j] nowin "1.prems" plies_place [OF j]
          by (simp add: childScore_def)
        from max_node_childScore [OF nowin notfull, of depth]
        obtain pre i post where mv: "availableMoves board = pre @ i # post"
          and r: "score (minimax board True depth) = childScore board True depth i"
          and all: "\<forall>j\<in>set (availableMoves board).
                  childScore board True depth j \<le> childScore board True depth i"
          by fastforce
        have i: "i \<in> set (availableMoves board)" by (subst mv) simp
        have "Max (?f ` set (availableMoves board)) = ?f i"
        proof (rule Max_eqI)
          show "finite (?f ` set (availableMoves board))" by simp
          show "?f i \<in> ?f ` set (availableMoves board)" using i by simp
          fix y assume "y \<in> ?f ` set (availableMoves board)"
          then obtain j where j: "j \<in> set (availableMoves board)" and y: "y = ?f j" by blast
          from all j have "childScore board True depth j \<le> childScore board True depth i"
            by blast
          then have "Fin (?f j) \<le> Fin (?f i)" by (simp only: child [OF j] child [OF i])
          then show "y \<le> ?f i" by (simp add: y)
        qed
        then show ?thesis
          using r child [OF i] True by (simp add: specScore_max [OF nowin notfull])
      next
        case False
        let ?f = "\<lambda>idx. specScore start (place board idx PlayerX) True"
        have child: "childScore board False depth j = Fin (?f j)"
          if j: "j \<in> set (availableMoves board)" for j
          using "1.IH"(2) [OF refl _ notfull refl False j] nowin "1.prems" plies_place [OF j]
          by (simp add: childScore_def)
        from min_node_childScore [OF nowin notfull, of depth]
        obtain pre i post where mv: "availableMoves board = pre @ i # post"
          and r: "score (minimax board False depth) = childScore board False depth i"
          and all: "\<forall>j\<in>set (availableMoves board).
                  childScore board False depth i \<le> childScore board False depth j"
          by fastforce
        have i: "i \<in> set (availableMoves board)" by (subst mv) simp
        have "Min (?f ` set (availableMoves board)) = ?f i"
        proof (rule Min_eqI)
          show "finite (?f ` set (availableMoves board))" by simp
          show "?f i \<in> ?f ` set (availableMoves board)" using i by simp
          fix y assume "y \<in> ?f ` set (availableMoves board)"
          then obtain j where j: "j \<in> set (availableMoves board)" and y: "y = ?f j" by blast
          from all j have "childScore board False depth i \<le> childScore board False depth j"
            by blast
          then have "Fin (?f i) \<le> Fin (?f j)" by (simp only: child [OF j] child [OF i])
          then show "?f i \<le> y" by (simp add: y)
        qed
        then show ?thesis
          using r child [OF i] False by (simp add: specScore_min [OF nowin notfull])
      qed
    qed
  qed
qed

text \<open>
  The calls of the search.  \<open>minimax_rel\<close> is the call relation of the definition of
  \<open>minimax\<close> above: \<open>minimax_rel c p\<close> holds exactly when the body of the call \<open>p\<close>
  makes the recursive call \<open>c\<close>.  The calls made in the course of
  \<open>minimax(start, true, 0)\<close> are therefore the triples related to \<open>(start, True, 0)\<close>
  by its reflexive transitive closure, and they are the nodes of \<open>searchNode\<close>.
\<close>

lemma minimax_rel_iff:
  "minimax_rel (board', mx', d') (board, mx, d) \<longleftrightarrow>
     winner (getWinnerInfo board) = None \<and> \<not> isBoardFull board
     \<and> (\<exists>idx \<in> set (availableMoves board).
           board' = place board idx (if mx then PlayerO else PlayerX))
     \<and> mx' = (\<not> mx) \<and> d' = d + 1"
  by (subst minimax_rel.simps) auto

lemma searchNode_calls:
  "searchNode start board mx d \<Longrightarrow> minimax_rel\<^sup>*\<^sup>* (board, mx, d) (start, True, 0)"
proof (induction rule: searchNode.induct)
  case atRoot
  show ?case by simp
next
  case (maxChild board depth idx)
  then have "minimax_rel (place board idx PlayerO, False, depth + 1) (board, True, depth)"
    by (subst minimax_rel_iff) auto
  then show ?case using maxChild.IH by (rule converse_rtranclp_into_rtranclp)
next
  case (minChild board depth idx)
  then have "minimax_rel (place board idx PlayerX, True, depth + 1) (board, False, depth)"
    by (subst minimax_rel_iff) auto
  then show ?case using minChild.IH by (rule converse_rtranclp_into_rtranclp)
qed

lemma calls_searchNode:
  assumes "minimax_rel\<^sup>*\<^sup>* c (start, True, 0)"
  shows "searchNode start (fst c) (fst (snd c)) (snd (snd c))"
  using assms
proof (induction rule: converse_rtranclp_induct)
  case base
  show ?case by (simp add: searchNode.atRoot)
next
  case (step c p)
  obtain board' mx' d' where c: "c = (board', mx', d')" by (cases c)
  obtain board mx d where p: "p = (board, mx, d)" by (cases p)
  from step.hyps(1) obtain idx where nowin: "winner (getWinnerInfo board) = None"
    and notfull: "\<not> isBoardFull board" and idx: "idx \<in> set (availableMoves board)"
    and b: "board' = place board idx (if mx then PlayerO else PlayerX)"
    and m: "mx' = (\<not> mx)" and d: "d' = d + 1"
    unfolding c p minimax_rel_iff by blast
  from step.IH have node: "searchNode start board mx d" by (simp add: p)
  show ?case
  proof (cases mx)
    case True
    with node have "searchNode start board True d" by simp
    then have "searchNode start (place board idx PlayerO) False (d + 1)"
      using nowin notfull idx by (rule searchNode.maxChild)
    then show ?thesis using True by (simp add: c b m d)
  next
    case False
    with node have "searchNode start board False d" by simp
    then have "searchNode start (place board idx PlayerX) True (d + 1)"
      using nowin notfull idx by (rule searchNode.minChild)
    then show ?thesis using False by (simp add: c b m d)
  qed
qed

lemma searchNode_iff_calls:
  "searchNode start board mx d \<longleftrightarrow> minimax_rel\<^sup>*\<^sup>* (board, mx, d) (start, True, 0)"
  using searchNode_calls [of start board mx d] calls_searchNode [of "(board, mx, d)" start]
  by auto

text \<open>
  Claim C4.  Every call \<open>minimax(board, mx, d)\<close> made in the course of the search
  \<open>minimax(start, true, 0)\<close> that the selector starts has for \<open>d\<close> the number of plies
  from \<open>start\<close> to \<open>board\<close>, and at a terminal node it returns \<open>10 - d\<close> when \<open>O\<close> has
  won, \<open>d - 10\<close> when \<open>X\<close> has won and \<open>0\<close> when the board is full without a winner.
  The score returned at every node, the root included, is the score of the
  specification, where each terminal node is scored by its number of plies from
  \<open>start\<close>.
\<close>

theorem terminal_score_by_depth:
  "(searchNode start board mx d \<longleftrightarrow> minimax_rel\<^sup>*\<^sup>* (board, mx, d) (start, True, 0))
   \<and> (minimax_rel\<^sup>*\<^sup>* (board, mx, d) (start, True, 0) \<longrightarrow>
        d = plies start board
        \<and> (winner (getWinnerInfo board) = Some PlayerO \<longrightarrow>
             minimax board mx d = \<lparr>score = Fin (10 - plies start board), index = None\<rparr>)
        \<and> (winner (getWinnerInfo board) = Some PlayerX \<longrightarrow>
             minimax board mx d = \<lparr>score = Fin (plies start board - 10), index = None\<rparr>)
        \<and> (winner (getWinnerInfo board) = None \<and> isBoardFull board \<longrightarrow>
             minimax board mx d = \<lparr>score = Fin 0, index = None\<rparr>)
        \<and> score (minimax board mx d) = Fin (specScore start board mx))
   \<and> score (minimax board mx (plies start board)) = Fin (specScore start board mx)
   \<and> score (minimax start True 0) = Fin (specScore start start True)"
proof (intro conjI impI)
  show "searchNode start board mx d \<longleftrightarrow> minimax_rel\<^sup>*\<^sup>* (board, mx, d) (start, True, 0)"
    by (rule searchNode_iff_calls)
  show "score (minimax board mx (plies start board)) = Fin (specScore start board mx)"
    by (rule minimax_specScore) simp
  show "score (minimax start True 0) = Fin (specScore start start True)"
    by (rule minimax_specScore) (simp add: plies_def)
next
  assume "minimax_rel\<^sup>*\<^sup>* (board, mx, d) (start, True, 0)"
  then have node: "searchNode start board mx d"
    by (simp add: searchNode_iff_calls)
  show d: "d = plies start board"
    using searchNode_depth [OF node] by (simp add: plies_def)
  then show "score (minimax board mx d) = Fin (specScore start board mx)"
    by (rule minimax_specScore)
  {
    assume "winner (getWinnerInfo board) = Some PlayerO"
    then show "minimax board mx d = \<lparr>score = Fin (10 - plies start board), index = None\<rparr>"
      using d by (simp add: minimax_terminal_win scoreTerminal_def)
  }
  {
    assume "winner (getWinnerInfo board) = Some PlayerX"
    then show "minimax board mx d = \<lparr>score = Fin (plies start board - 10), index = None\<rparr>"
      using d by (simp add: minimax_terminal_win scoreTerminal_def)
  }
  {
    assume "winner (getWinnerInfo board) = None \<and> isBoardFull board"
    then show "minimax board mx d = \<lparr>score = Fin 0, index = None\<rparr>"
      by (simp add: minimax_terminal_full)
  }
qed

lemma lateBoard_facts:
  "winner (getWinnerInfo lateBoard) = None" "\<not> isBoardFull lateBoard"
  "availableMoves lateBoard = [6, 7]"
  "winner (getWinnerInfo (place lateBoard 7 PlayerO)) = None"
  "\<not> isBoardFull (place lateBoard 7 PlayerO)"
  "availableMoves (place lateBoard 7 PlayerO) = [6]"
  "winner (getWinnerInfo (place (place lateBoard 7 PlayerO) 6 PlayerX)) = Some PlayerX"
  by code_simp+

theorem terminal_score_by_depth_witness:
  "minimax_rel\<^sup>*\<^sup>* (place (place lateBoard 7 PlayerO) 6 PlayerX, True, 2) (lateBoard, True, 0)
   \<and> winner (getWinnerInfo (place (place lateBoard 7 PlayerO) 6 PlayerX)) = Some PlayerX
   \<and> plies lateBoard (place (place lateBoard 7 PlayerO) 6 PlayerX) = 2
   \<and> minimax (place (place lateBoard 7 PlayerO) 6 PlayerX) True 2
       = \<lparr>score = Fin (- 8), index = None\<rparr>
   \<and> plies lateBoard (place lateBoard 7 PlayerO) = 1
   \<and> score (minimax (place lateBoard 7 PlayerO) False 1) = Fin (- 8)
   \<and> score (minimax lateBoard True 0) = Fin 0"
proof -
  have n0: "searchNode lateBoard lateBoard True 0" by (rule searchNode.atRoot)
  have n1: "searchNode lateBoard (place lateBoard 7 PlayerO) False (0 + 1)"
    using n0 lateBoard_facts(1,2) by (rule searchNode.maxChild) (simp add: lateBoard_facts)
  have n2: "searchNode lateBoard (place (place lateBoard 7 PlayerO) 6 PlayerX) True (0 + 1 + 1)"
    using n1 lateBoard_facts(4,5) by (rule searchNode.minChild) (simp add: lateBoard_facts)
  then have n: "searchNode lateBoard (place (place lateBoard 7 PlayerO) 6 PlayerX) True 2"
    by simp
  have p1: "plies lateBoard (place lateBoard 7 PlayerO) = 1" by code_simp
  have s1: "specScore lateBoard (place lateBoard 7 PlayerO) False = - 8" by code_simp
  have s0: "specScore lateBoard lateBoard True = 0" by code_simp
  from terminal_score_by_depth
    [of lateBoard "place (place lateBoard 7 PlayerO) 6 PlayerX" True 2] n
  have c: "minimax_rel\<^sup>*\<^sup>* (place (place lateBoard 7 PlayerO) 6 PlayerX, True, 2)
      (lateBoard, True, 0)"
    by blast
  with terminal_score_by_depth
    [of lateBoard "place (place lateBoard 7 PlayerO) 6 PlayerX" True 2] lateBoard_facts(7)
  have p2: "plies lateBoard (place (place lateBoard 7 PlayerO) 6 PlayerX) = 2"
    and a: "minimax (place (place lateBoard 7 PlayerO) 6 PlayerX) True 2
       = \<lparr>score = Fin (- 8), index = None\<rparr>"
    by simp_all
  from terminal_score_by_depth [of lateBoard "place lateBoard 7 PlayerO" False 0]
  have b: "score (minimax (place lateBoard 7 PlayerO) False 1) = Fin (- 8)"
    and r: "score (minimax lateBoard True 0) = Fin 0"
    by (simp_all add: p1 s1 s0)
  show ?thesis using c lateBoard_facts(7) p2 a p1 b r by simp
qed


section \<open>Bounds on the score of a node\<close>

text \<open>Bounds on the score that the search assigns to a node.\<close>

definition scoreAtLeast :: "int \<Rightarrow> board \<Rightarrow> bool \<Rightarrow> int \<Rightarrow> bool" where
  "scoreAtLeast t board mx depth = (Fin t \<le> score (minimax board mx depth))"

definition scoreAtMost :: "int \<Rightarrow> board \<Rightarrow> bool \<Rightarrow> int \<Rightarrow> bool" where
  "scoreAtMost t board mx depth = (score (minimax board mx depth) \<le> Fin t)"

lemma bounds_win:
  assumes "winner (getWinnerInfo board) \<noteq> None"
  shows "scoreAtLeast t board mx depth \<longleftrightarrow> t \<le> scoreTerminal (winner (getWinnerInfo board)) depth"
    and "scoreAtMost t board mx depth \<longleftrightarrow> scoreTerminal (winner (getWinnerInfo board)) depth \<le> t"
  using assms by (simp_all add: scoreAtLeast_def scoreAtMost_def minimax_terminal_win)

lemma bounds_full:
  assumes "winner (getWinnerInfo board) = None" and "isBoardFull board"
  shows "scoreAtLeast t board mx depth \<longleftrightarrow> t \<le> 0"
    and "scoreAtMost t board mx depth \<longleftrightarrow> 0 \<le> t"
  using assms by (simp_all add: scoreAtLeast_def scoreAtMost_def minimax_terminal_full)

lemma bounds_max:
  assumes nowin: "winner (getWinnerInfo board) = None" and notfull: "\<not> isBoardFull board"
  shows "scoreAtLeast t board True depth \<longleftrightarrow>
           (\<exists>j\<in>set (availableMoves board). scoreAtLeast t (place board j PlayerO) False (depth + 1))"
    and "scoreAtMost t board True depth \<longleftrightarrow>
           (\<forall>j\<in>set (availableMoves board). scoreAtMost t (place board j PlayerO) False (depth + 1))"
proof -
  from max_node_childScore [OF nowin notfull, of depth]
  obtain pre i post where mv: "availableMoves board = pre @ i # post"
    and r: "score (minimax board True depth) = childScore board True depth i"
    and all: "\<forall>j\<in>set (availableMoves board).
                  childScore board True depth j \<le> childScore board True depth i"
    by fastforce
  have i: "i \<in> set (availableMoves board)" by (subst mv) simp
  have cs: "childScore board True depth j = score (minimax (place board j PlayerO) False (depth + 1))"
    for j by (simp add: childScore_def)
  show "scoreAtLeast t board True depth \<longleftrightarrow>
           (\<exists>j\<in>set (availableMoves board). scoreAtLeast t (place board j PlayerO) False (depth + 1))"
    unfolding scoreAtLeast_def r cs [symmetric] using i all by (meson order_trans)
  show "scoreAtMost t board True depth \<longleftrightarrow>
           (\<forall>j\<in>set (availableMoves board). scoreAtMost t (place board j PlayerO) False (depth + 1))"
    unfolding scoreAtMost_def r cs [symmetric] using i all by (meson order_trans)
qed

lemma bounds_min:
  assumes nowin: "winner (getWinnerInfo board) = None" and notfull: "\<not> isBoardFull board"
  shows "scoreAtLeast t board False depth \<longleftrightarrow>
           (\<forall>j\<in>set (availableMoves board). scoreAtLeast t (place board j PlayerX) True (depth + 1))"
    and "scoreAtMost t board False depth \<longleftrightarrow>
           (\<exists>j\<in>set (availableMoves board). scoreAtMost t (place board j PlayerX) True (depth + 1))"
proof -
  from min_node_childScore [OF nowin notfull, of depth]
  obtain pre i post where mv: "availableMoves board = pre @ i # post"
    and r: "score (minimax board False depth) = childScore board False depth i"
    and all: "\<forall>j\<in>set (availableMoves board).
                  childScore board False depth i \<le> childScore board False depth j"
    by fastforce
  have i: "i \<in> set (availableMoves board)" by (subst mv) simp
  have cs: "childScore board False depth j = score (minimax (place board j PlayerX) True (depth + 1))"
    for j by (simp add: childScore_def)
  show "scoreAtLeast t board False depth \<longleftrightarrow>
           (\<forall>j\<in>set (availableMoves board). scoreAtLeast t (place board j PlayerX) True (depth + 1))"
    unfolding scoreAtLeast_def r cs [symmetric] using i all by (meson order_trans)
  show "scoreAtMost t board False depth \<longleftrightarrow>
           (\<exists>j\<in>set (availableMoves board). scoreAtMost t (place board j PlayerX) True (depth + 1))"
    unfolding scoreAtMost_def r cs [symmetric] using i all by (meson order_trans)
qed

lemma less_9_cases: "(j::nat) < 9 \<longleftrightarrow> j = 0 \<or> j = 1 \<or> j = 2 \<or> j = 3 \<or> j = 4 \<or> j = 5 \<or> j = 6 \<or> j = 7 \<or> j = 8"
  by auto

subsection \<open>Nine-cell boards written out\<close>

lemma winner_scanLines_Cons:
  "winner (scanLines board (l # ls))
     = (if lineMatches board l then cellAt board (fst l) else winner (scanLines board ls))"
  by simp

lemma winner_scanLines_Nil: "winner (scanLines board []) = None"
  by simp

lemma cellAt9:
  "cellAt [a, b, c, d, e, f, g, h, i] 0 = a" "cellAt [a, b, c, d, e, f, g, h, i] 1 = b" "cellAt [a, b, c, d, e, f, g, h, i] 2 = c"
  "cellAt [a, b, c, d, e, f, g, h, i] 3 = d" "cellAt [a, b, c, d, e, f, g, h, i] 4 = e" "cellAt [a, b, c, d, e, f, g, h, i] 5 = f"
  "cellAt [a, b, c, d, e, f, g, h, i] 6 = g" "cellAt [a, b, c, d, e, f, g, h, i] 7 = h" "cellAt [a, b, c, d, e, f, g, h, i] 8 = i"
  by (simp_all add: cellAt_def)

lemma winner9:
  "winner (getWinnerInfo [a, b, c, d, e, f, g, h, i]) =
     (if a \<noteq> None \<and> a = b \<and> a = c then a
      else if d \<noteq> None \<and> d = e \<and> d = f then d
      else if g \<noteq> None \<and> g = h \<and> g = i then g
      else if a \<noteq> None \<and> a = d \<and> a = g then a
      else if b \<noteq> None \<and> b = e \<and> b = h then b
      else if c \<noteq> None \<and> c = f \<and> c = i then c
      else if a \<noteq> None \<and> a = e \<and> a = i then a
      else if c \<noteq> None \<and> c = e \<and> c = g then c
      else None)"
  unfolding getWinnerInfo_def WIN_LINES_def winner_scanLines_Cons winner_scanLines_Nil
    lineMatches_def prod.case fst_conv cellAt9 ..

lemma length9: "length [a, b, c, d, e, f, g, h, i] = 9"
  by simp

lemma nth9:
  "[a, b, c, d, e, f, g, h, i] ! 0 = a" "[a, b, c, d, e, f, g, h, i] ! 1 = b" "[a, b, c, d, e, f, g, h, i] ! 2 = c"
  "[a, b, c, d, e, f, g, h, i] ! 3 = d" "[a, b, c, d, e, f, g, h, i] ! 4 = e" "[a, b, c, d, e, f, g, h, i] ! 5 = f"
  "[a, b, c, d, e, f, g, h, i] ! 6 = g" "[a, b, c, d, e, f, g, h, i] ! 7 = h" "[a, b, c, d, e, f, g, h, i] ! 8 = i"
  by simp_all


lemma ex_less_9:
  "(\<exists>j<9. Q j) \<longleftrightarrow> Q 0 \<or> Q 1 \<or> Q 2 \<or> Q 3 \<or> Q 4 \<or> Q 5 \<or> Q 6 \<or> Q 7 \<or> Q (8::nat)"
  unfolding less_9_cases by blast

lemma moves9_iff:
  "j \<in> set (availableMoves [a, b, c, d, e, f, g, h, i]) \<longleftrightarrow>
     j = 0 \<and> a = None \<or> j = 1 \<and> b = None \<or> j = 2 \<and> c = None \<or> j = 3 \<and> d = None
   \<or> j = 4 \<and> e = None \<or> j = 5 \<and> f = None \<or> j = 6 \<and> g = None \<or> j = 7 \<and> h = None
   \<or> j = 8 \<and> i = None"
proof -
  have "j \<in> set (availableMoves [a, b, c, d, e, f, g, h, i])
      \<longleftrightarrow> (\<exists>k<9. j = k \<and> [a, b, c, d, e, f, g, h, i] ! k = None)"
    unfolding availableMoves_iff length9 by blast
  then show ?thesis unfolding ex_less_9 nth9 .
qed

lemma all_less_9:
  "(\<forall>j<9. Q j) \<longleftrightarrow> Q 0 \<and> Q 1 \<and> Q 2 \<and> Q 3 \<and> Q 4 \<and> Q 5 \<and> Q 6 \<and> Q 7 \<and> Q (8::nat)"
  unfolding less_9_cases by blast


lemma ex_moves9:
  "(\<exists>j\<in>set (availableMoves [a, b, c, d, e, f, g, h, i]). P j) \<longleftrightarrow>
     a = None \<and> P 0 \<or> b = None \<and> P 1 \<or> c = None \<and> P 2 \<or> d = None \<and> P 3
   \<or> e = None \<and> P 4 \<or> f = None \<and> P 5 \<or> g = None \<and> P 6 \<or> h = None \<and> P 7
   \<or> i = None \<and> P 8"
proof -
  have "(\<exists>j\<in>set (availableMoves [a, b, c, d, e, f, g, h, i]). P j)
      \<longleftrightarrow> (\<exists>j<9. [a, b, c, d, e, f, g, h, i] ! j = None \<and> P j)"
    unfolding Bex_def availableMoves_iff length9 by blast
  then show ?thesis unfolding ex_less_9 nth9 .
qed

lemma all_moves9:
  "(\<forall>j\<in>set (availableMoves [a, b, c, d, e, f, g, h, i]). P j) \<longleftrightarrow>
     (a = None \<longrightarrow> P 0) \<and> (b = None \<longrightarrow> P 1) \<and> (c = None \<longrightarrow> P 2) \<and> (d = None \<longrightarrow> P 3)
   \<and> (e = None \<longrightarrow> P 4) \<and> (f = None \<longrightarrow> P 5) \<and> (g = None \<longrightarrow> P 6) \<and> (h = None \<longrightarrow> P 7)
   \<and> (i = None \<longrightarrow> P 8)"
proof -
  have "(\<forall>j\<in>set (availableMoves [a, b, c, d, e, f, g, h, i]). P j)
      \<longleftrightarrow> (\<forall>j<9. [a, b, c, d, e, f, g, h, i] ! j = None \<longrightarrow> P j)"
    unfolding Ball_def availableMoves_iff length9 by blast
  then show ?thesis unfolding all_less_9 nth9 .
qed

lemma full9:
  "isBoardFull [a, b, c, d, e, f, g, h, i] \<longleftrightarrow>
     a \<noteq> None \<and> b \<noteq> None \<and> c \<noteq> None \<and> d \<noteq> None \<and> e \<noteq> None \<and> f \<noteq> None \<and> g \<noteq> None \<and> h \<noteq> None \<and> i \<noteq> None"
  by (simp add: isBoardFull_def)

lemma place9:
  "place [a, b, c, d, e, f, g, h, i] 0 p = [Some p, b, c, d, e, f, g, h, i]"
  "place [a, b, c, d, e, f, g, h, i] 1 p = [a, Some p, c, d, e, f, g, h, i]"
  "place [a, b, c, d, e, f, g, h, i] 2 p = [a, b, Some p, d, e, f, g, h, i]"
  "place [a, b, c, d, e, f, g, h, i] 3 p = [a, b, c, Some p, e, f, g, h, i]"
  "place [a, b, c, d, e, f, g, h, i] 4 p = [a, b, c, d, Some p, f, g, h, i]"
  "place [a, b, c, d, e, f, g, h, i] 5 p = [a, b, c, d, e, Some p, g, h, i]"
  "place [a, b, c, d, e, f, g, h, i] 6 p = [a, b, c, d, e, f, Some p, h, i]"
  "place [a, b, c, d, e, f, g, h, i] 7 p = [a, b, c, d, e, f, g, Some p, i]"
  "place [a, b, c, d, e, f, g, h, i] 8 p = [a, b, c, d, e, f, g, h, Some p]"
  by (simp_all add: place_def numeral_eq_Suc)


lemma if_True_or: "(if c then True else r) = (c \<or> r)"
  by simp

lemma if_and_False: "(if c then p else False) = (c \<and> p)"
  by simp

lemma if_imp_True: "(if c then p else True) = (c \<longrightarrow> p)"
  by simp

lemma scoreAtLeast_max9:
  "scoreAtLeast t [a, b, c, d, e, f, g, h, i] True depth =
     (case winner (getWinnerInfo [a, b, c, d, e, f, g, h, i]) of
        Some w \<Rightarrow> t \<le> scoreTerminal (Some w) depth
      | None \<Rightarrow>
        if isBoardFull [a, b, c, d, e, f, g, h, i] then t \<le> 0
        else if (if a = None then scoreAtLeast t [Some PlayerO, b, c, d, e, f, g, h, i] False (depth + 1) else False) then True
        else if (if b = None then scoreAtLeast t [a, Some PlayerO, c, d, e, f, g, h, i] False (depth + 1) else False) then True
        else if (if c = None then scoreAtLeast t [a, b, Some PlayerO, d, e, f, g, h, i] False (depth + 1) else False) then True
        else if (if d = None then scoreAtLeast t [a, b, c, Some PlayerO, e, f, g, h, i] False (depth + 1) else False) then True
        else if (if e = None then scoreAtLeast t [a, b, c, d, Some PlayerO, f, g, h, i] False (depth + 1) else False) then True
        else if (if f = None then scoreAtLeast t [a, b, c, d, e, Some PlayerO, g, h, i] False (depth + 1) else False) then True
        else if (if g = None then scoreAtLeast t [a, b, c, d, e, f, Some PlayerO, h, i] False (depth + 1) else False) then True
        else if (if h = None then scoreAtLeast t [a, b, c, d, e, f, g, Some PlayerO, i] False (depth + 1) else False) then True
        else if (if i = None then scoreAtLeast t [a, b, c, d, e, f, g, h, Some PlayerO] False (depth + 1) else False) then True
        else False)"
proof (cases "winner (getWinnerInfo [a, b, c, d, e, f, g, h, i])")
  case None
  show ?thesis
  proof (cases "isBoardFull [a, b, c, d, e, f, g, h, i]")
    case True
    then show ?thesis using None by (simp add: bounds_full)
  next
    case False
    show ?thesis
      by (simp only: bounds_max(1) [OF None False] ex_moves9 place9 None False option.case
          if_False if_True_or if_and_False if_imp_True simp_thms)
  qed
next
  case (Some w)
  then show ?thesis by (simp add: bounds_win)
qed

lemma scoreAtLeast_min9:
  "scoreAtLeast t [a, b, c, d, e, f, g, h, i] False depth =
     (case winner (getWinnerInfo [a, b, c, d, e, f, g, h, i]) of
        Some w \<Rightarrow> t \<le> scoreTerminal (Some w) depth
      | None \<Rightarrow>
        if isBoardFull [a, b, c, d, e, f, g, h, i] then t \<le> 0
        else if (if a = None then scoreAtLeast t [Some PlayerX, b, c, d, e, f, g, h, i] True (depth + 1) else True) then
        if (if b = None then scoreAtLeast t [a, Some PlayerX, c, d, e, f, g, h, i] True (depth + 1) else True) then
        if (if c = None then scoreAtLeast t [a, b, Some PlayerX, d, e, f, g, h, i] True (depth + 1) else True) then
        if (if d = None then scoreAtLeast t [a, b, c, Some PlayerX, e, f, g, h, i] True (depth + 1) else True) then
        if (if e = None then scoreAtLeast t [a, b, c, d, Some PlayerX, f, g, h, i] True (depth + 1) else True) then
        if (if f = None then scoreAtLeast t [a, b, c, d, e, Some PlayerX, g, h, i] True (depth + 1) else True) then
        if (if g = None then scoreAtLeast t [a, b, c, d, e, f, Some PlayerX, h, i] True (depth + 1) else True) then
        if (if h = None then scoreAtLeast t [a, b, c, d, e, f, g, Some PlayerX, i] True (depth + 1) else True) then
        if (if i = None then scoreAtLeast t [a, b, c, d, e, f, g, h, Some PlayerX] True (depth + 1) else True) then
        True else False else False else False else False else False else False else False else False else False)"
proof (cases "winner (getWinnerInfo [a, b, c, d, e, f, g, h, i])")
  case None
  show ?thesis
  proof (cases "isBoardFull [a, b, c, d, e, f, g, h, i]")
    case True
    then show ?thesis using None by (simp add: bounds_full)
  next
    case False
    show ?thesis
      by (simp only: bounds_min(1) [OF None False] all_moves9 place9 None False option.case
          if_False if_True_or if_and_False if_imp_True simp_thms)
  qed
next
  case (Some w)
  then show ?thesis by (simp add: bounds_win)
qed

lemma scoreAtMost_max9:
  "scoreAtMost t [a, b, c, d, e, f, g, h, i] True depth =
     (case winner (getWinnerInfo [a, b, c, d, e, f, g, h, i]) of
        Some w \<Rightarrow> scoreTerminal (Some w) depth \<le> t
      | None \<Rightarrow>
        if isBoardFull [a, b, c, d, e, f, g, h, i] then 0 \<le> t
        else if (if a = None then scoreAtMost t [Some PlayerO, b, c, d, e, f, g, h, i] False (depth + 1) else True) then
        if (if b = None then scoreAtMost t [a, Some PlayerO, c, d, e, f, g, h, i] False (depth + 1) else True) then
        if (if c = None then scoreAtMost t [a, b, Some PlayerO, d, e, f, g, h, i] False (depth + 1) else True) then
        if (if d = None then scoreAtMost t [a, b, c, Some PlayerO, e, f, g, h, i] False (depth + 1) else True) then
        if (if e = None then scoreAtMost t [a, b, c, d, Some PlayerO, f, g, h, i] False (depth + 1) else True) then
        if (if f = None then scoreAtMost t [a, b, c, d, e, Some PlayerO, g, h, i] False (depth + 1) else True) then
        if (if g = None then scoreAtMost t [a, b, c, d, e, f, Some PlayerO, h, i] False (depth + 1) else True) then
        if (if h = None then scoreAtMost t [a, b, c, d, e, f, g, Some PlayerO, i] False (depth + 1) else True) then
        if (if i = None then scoreAtMost t [a, b, c, d, e, f, g, h, Some PlayerO] False (depth + 1) else True) then
        True else False else False else False else False else False else False else False else False else False)"
proof (cases "winner (getWinnerInfo [a, b, c, d, e, f, g, h, i])")
  case None
  show ?thesis
  proof (cases "isBoardFull [a, b, c, d, e, f, g, h, i]")
    case True
    then show ?thesis using None by (simp add: bounds_full)
  next
    case False
    show ?thesis
      by (simp only: bounds_max(2) [OF None False] all_moves9 place9 None False option.case
          if_False if_True_or if_and_False if_imp_True simp_thms)
  qed
next
  case (Some w)
  then show ?thesis by (simp add: bounds_win)
qed

lemma scoreAtMost_min9:
  "scoreAtMost t [a, b, c, d, e, f, g, h, i] False depth =
     (case winner (getWinnerInfo [a, b, c, d, e, f, g, h, i]) of
        Some w \<Rightarrow> scoreTerminal (Some w) depth \<le> t
      | None \<Rightarrow>
        if isBoardFull [a, b, c, d, e, f, g, h, i] then 0 \<le> t
        else if (if a = None then scoreAtMost t [Some PlayerX, b, c, d, e, f, g, h, i] True (depth + 1) else False) then True
        else if (if b = None then scoreAtMost t [a, Some PlayerX, c, d, e, f, g, h, i] True (depth + 1) else False) then True
        else if (if c = None then scoreAtMost t [a, b, Some PlayerX, d, e, f, g, h, i] True (depth + 1) else False) then True
        else if (if d = None then scoreAtMost t [a, b, c, Some PlayerX, e, f, g, h, i] True (depth + 1) else False) then True
        else if (if e = None then scoreAtMost t [a, b, c, d, Some PlayerX, f, g, h, i] True (depth + 1) else False) then True
        else if (if f = None then scoreAtMost t [a, b, c, d, e, Some PlayerX, g, h, i] True (depth + 1) else False) then True
        else if (if g = None then scoreAtMost t [a, b, c, d, e, f, Some PlayerX, h, i] True (depth + 1) else False) then True
        else if (if h = None then scoreAtMost t [a, b, c, d, e, f, g, Some PlayerX, i] True (depth + 1) else False) then True
        else if (if i = None then scoreAtMost t [a, b, c, d, e, f, g, h, Some PlayerX] True (depth + 1) else False) then True
        else False)"
proof (cases "winner (getWinnerInfo [a, b, c, d, e, f, g, h, i])")
  case None
  show ?thesis
  proof (cases "isBoardFull [a, b, c, d, e, f, g, h, i]")
    case True
    then show ?thesis using None by (simp add: bounds_full)
  next
    case False
    show ?thesis
      by (simp only: bounds_min(2) [OF None False] ex_moves9 place9 None False option.case
          if_False if_True_or if_and_False if_imp_True simp_thms)
  qed
next
  case (Some w)
  then show ?thesis by (simp add: bounds_win)
qed

lemma place9_Suc0:
  "place [a, b, c, d, e, f, g, h, i] (Suc 0) p = [a, Some p, c, d, e, f, g, h, i]"
  by (simp add: place_def)

lemmas evalRules = scoreAtLeast_max9 scoreAtLeast_min9 scoreAtMost_max9 scoreAtMost_min9
  winner9 full9 scoreTerminal_def all_moves9 place9 place9_Suc0

subsection \<open>Which child a node returns, from bounds on the children\<close>

lemma sorted_availableMoves: "sorted_wrt (<) (availableMoves board)"
  unfolding availableMoves_def by (rule sorted_wrt_filter) (simp add: sorted_wrt_upt)

lemma split_sorted:
  assumes "sorted_wrt (<) (pre @ (i::nat) # post)" and "j \<in> set (pre @ i # post)"
  shows "(j < i \<longrightarrow> j \<in> set pre) \<and> (j \<in> set pre \<longrightarrow> j < i)"
  using assms by (auto simp: sorted_wrt_append)

lemma max_pick:
  assumes nowin: "winner (getWinnerInfo board) = None"
    and i: "i \<in> set (availableMoves board)"
    and lo: "scoreAtLeast v (place board i PlayerO) False (depth + 1)"
    and others: "\<forall>j\<in>set (availableMoves board).
        scoreAtMost (if j < i then v - 1 else v) (place board j PlayerO) False (depth + 1)"
  shows "minimax board True depth = \<lparr>score = Fin v, index = Some i\<rparr>"
proof -
  have "availableMoves board \<noteq> []" using i by auto
  then have notfull: "\<not> isBoardFull board" by (rule moves_notFull)
  have cs: "childScore board True depth j = score (minimax (place board j PlayerO) False (depth + 1))"
    for j by (simp add: childScore_def)
  from max_node_childScore [OF nowin notfull, of depth]
  obtain pre k post where mv: "availableMoves board = pre @ k # post"
    and r: "minimax board True depth = \<lparr>score = childScore board True depth k, index = Some k\<rparr>"
    and all: "\<forall>j\<in>set (availableMoves board).
                  childScore board True depth j \<le> childScore board True depth k"
    and pre: "\<forall>j\<in>set pre. childScore board True depth j < childScore board True depth k"
    by blast
  have k: "k \<in> set (availableMoves board)" by (subst mv) simp
  have srt: "sorted_wrt (<) (pre @ k # post)" using sorted_availableMoves [of board] mv by simp
  have ci: "childScore board True depth i = Fin v"
    using lo others i by (auto simp: scoreAtLeast_def scoreAtMost_def cs)
  have ub: "childScore board True depth j \<le> (if j < i then Fin (v - 1) else Fin v)"
    if "j \<in> set (availableMoves board)" for j
    using others that by (auto simp: scoreAtMost_def cs)
  have "k = i"
  proof (rule ccontr)
    assume ne: "k \<noteq> i"
    show False
    proof (cases "k < i")
      case True
      then have "childScore board True depth k \<le> Fin (v - 1)" using ub [OF k] by simp
      moreover have "Fin v \<le> childScore board True depth k" using all i ci by fastforce
      ultimately have "Fin v \<le> Fin (v - 1)" by (rule order_trans [rotated])
      then show False by (simp add: Fin_le_iff)
    next
      case False
      then have "i < k" using ne by simp
      moreover have "i \<in> set (pre @ k # post)" using i mv by simp
      ultimately have "i \<in> set pre" using split_sorted [OF srt] by blast
      then have "childScore board True depth i < childScore board True depth k"
        using pre by blast
      moreover have "childScore board True depth k \<le> Fin v" using ub [OF k] False by simp
      ultimately show False using ci by simp
    qed
  qed
  then show ?thesis using r ci by simp
qed

lemma min_pick:
  assumes nowin: "winner (getWinnerInfo board) = None"
    and i: "i \<in> set (availableMoves board)"
    and hi: "scoreAtMost v (place board i PlayerX) True (depth + 1)"
    and others: "\<forall>j\<in>set (availableMoves board).
        scoreAtLeast (if j < i then v + 1 else v) (place board j PlayerX) True (depth + 1)"
  shows "minimax board False depth = \<lparr>score = Fin v, index = Some i\<rparr>"
proof -
  have "availableMoves board \<noteq> []" using i by auto
  then have notfull: "\<not> isBoardFull board" by (rule moves_notFull)
  have cs: "childScore board False depth j = score (minimax (place board j PlayerX) True (depth + 1))"
    for j by (simp add: childScore_def)
  from min_node_childScore [OF nowin notfull, of depth]
  obtain pre k post where mv: "availableMoves board = pre @ k # post"
    and r: "minimax board False depth = \<lparr>score = childScore board False depth k, index = Some k\<rparr>"
    and all: "\<forall>j\<in>set (availableMoves board).
                  childScore board False depth k \<le> childScore board False depth j"
    and pre: "\<forall>j\<in>set pre. childScore board False depth k < childScore board False depth j"
    by blast
  have k: "k \<in> set (availableMoves board)" by (subst mv) simp
  have srt: "sorted_wrt (<) (pre @ k # post)" using sorted_availableMoves [of board] mv by simp
  have ci: "childScore board False depth i = Fin v"
    using hi others i by (auto simp: scoreAtLeast_def scoreAtMost_def cs)
  have lb: "(if j < i then Fin (v + 1) else Fin v) \<le> childScore board False depth j"
    if "j \<in> set (availableMoves board)" for j
    using others that by (auto simp: scoreAtLeast_def cs)
  have "k = i"
  proof (rule ccontr)
    assume ne: "k \<noteq> i"
    show False
    proof (cases "k < i")
      case True
      then have "Fin (v + 1) \<le> childScore board False depth k" using lb [OF k] by simp
      moreover have "childScore board False depth k \<le> Fin v" using all i ci by fastforce
      ultimately have "Fin (v + 1) \<le> Fin v" by (rule order_trans)
      then show False by (simp add: Fin_le_iff)
    next
      case False
      then have "i < k" using ne by simp
      moreover have "i \<in> set (pre @ k # post)" using i mv by simp
      ultimately have "i \<in> set pre" using split_sorted [OF srt] by blast
      then have "childScore board False depth k < childScore board False depth i"
        using pre by blast
      moreover have "Fin v \<le> childScore board False depth k" using lb [OF k] False by simp
      ultimately show False using ci by simp
    qed
  qed
  then show ?thesis using r ci by simp
qed


section \<open>The selector on two positions, and moves it never makes\<close>

subsection \<open>Moves that hand the opponent a win\<close>

text \<open>
  After \<open>O\<close> plays \<open>m\<close> the game goes on and \<open>X\<close> has a move that completes a line:
  the move \<open>m\<close> allows the opponent a win on the following ply.
\<close>

definition opponentWinsNext :: "board \<Rightarrow> bool" where
  "opponentWinsNext board =
     (\<exists>j\<in>set (availableMoves board).
        winner (getWinnerInfo (place board j PlayerX)) = Some PlayerX)"

definition allowsForcedWin :: "board \<Rightarrow> nat \<Rightarrow> bool" where
  "allowsForcedWin board m =
     (winner (getWinnerInfo (place board m PlayerO)) = None
      \<and> opponentWinsNext (place board m PlayerO))"

lemma cellAt_place:
  "cellAt (place board i p) k = (if k = i \<and> i < length board then Some p else cellAt board k)"
  by (auto simp: cellAt_def place_def)

lemma no_winner_no_match:
  "winner (getWinnerInfo board) = None \<longleftrightarrow> (\<forall>l\<in>set WIN_LINES. \<not> lineMatches board l)"
  using winner_scanLines_iff [of board WIN_LINES] by (auto simp: getWinnerInfo_def)

lemma winner_is_matching_cell:
  assumes "winner (getWinnerInfo board) \<noteq> None"
  shows "\<exists>l\<in>set WIN_LINES. lineMatches board l
           \<and> winner (getWinnerInfo board) = cellAt board (fst l)"
proof -
  have "\<exists>l\<in>set WIN_LINES. lineMatches board l"
    using assms unfolding getWinnerInfo_def winner_scanLines_iff .
  then obtain pre l post where split: "WIN_LINES = pre @ l # post"
    and m: "lineMatches board l" and first: "\<forall>k\<in>set pre. \<not> lineMatches board k"
    by (rule split_list_first_propE)
  have "getWinnerInfo board = \<lparr>winner = cellAt board (fst l), line = Some l\<rparr>"
    unfolding getWinnerInfo_def using split first m by (rule scanLines_first)
  moreover have "l \<in> set WIN_LINES" by (subst split) simp
  ultimately show ?thesis using m by auto
qed

lemma winner_after_place:
  assumes nowin: "winner (getWinnerInfo board) = None" and i: "i < length board"
  shows "winner (getWinnerInfo (place board i p)) = None
       \<or> winner (getWinnerInfo (place board i p)) = Some p"
proof (cases "winner (getWinnerInfo (place board i p)) = None")
  case True
  then show ?thesis by simp
next
  case False
  from winner_is_matching_cell [OF False]
  obtain l where l: "l \<in> set WIN_LINES" and m: "lineMatches (place board i p) l"
    and w: "winner (getWinnerInfo (place board i p)) = cellAt (place board i p) (fst l)"
    by blast
  obtain x y z where xyz: "l = (x, y, z)" by (cases l)
  have old: "\<not> lineMatches board (x, y, z)"
    using nowin l xyz no_winner_no_match by blast
  have eqs: "cellAt (place board i p) x \<noteq> None"
    "cellAt (place board i p) x = cellAt (place board i p) y"
    "cellAt (place board i p) x = cellAt (place board i p) z"
    using m by (auto simp: xyz lineMatches_def)
  have "i = x \<or> i = y \<or> i = z"
  proof (rule ccontr)
    assume "\<not> (i = x \<or> i = y \<or> i = z)"
    then have "lineMatches board (x, y, z)"
      using eqs by (simp add: lineMatches_def cellAt_place)
    with old show False by simp
  qed
  then have "cellAt (place board i p) x = Some p"
    using eqs i by (auto simp: cellAt_place split: if_splits)
  then show ?thesis using w by (simp add: xyz)
qed

lemma scoreAtLeast_mono: "scoreAtLeast t' board mx depth \<Longrightarrow> t \<le> t' \<Longrightarrow> scoreAtLeast t board mx depth"
  unfolding scoreAtLeast_def using Fin_le_iff order_trans by blast

text \<open>
  No score is below \<open>depth - 10\<close>, as long as the depth cannot pass 10 below the node.
\<close>

lemma score_lower_bound:
  "0 \<le> depth \<Longrightarrow> depth + int (emptyCount board) \<le> 10 \<Longrightarrow>
   scoreAtLeast (depth - 10) board mx depth"
proof (induction board mx depth rule: minimax.induct)
  case (1 board isMaximizing depth)
  show ?case
  proof (cases "winner (getWinnerInfo board) = None")
    case False
    then have "winner (getWinnerInfo board) = Some PlayerO
        \<or> winner (getWinnerInfo board) = Some PlayerX"
      by (metis option.exhaust player.exhaust)
    then show ?thesis
      using "1.prems" by (auto simp: bounds_win [OF False] scoreTerminal_def)
  next
    case nowin: True
    show ?thesis
    proof (cases "isBoardFull board")
      case True
      then show ?thesis using nowin "1.prems" by (simp add: bounds_full)
    next
      case notfull: False
      have ne: "availableMoves board \<noteq> []" using notfull by (rule notFull_moves)
      have ec: "int (emptyCount (place board j p)) = int (emptyCount board) - 1"
        if "j \<in> set (availableMoves board)" for j p
        using that emptyCount_place_Suc [of j board p] by (simp add: availableMoves_iff)
      show ?thesis
      proof (cases isMaximizing)
        case True
        have child: "scoreAtLeast (depth - 10) (place board j PlayerO) False (depth + 1)"
          if j: "j \<in> set (availableMoves board)" for j
        proof -
          have "scoreAtLeast (depth + 1 - 10) (place board j PlayerO) False (depth + 1)"
            using "1.IH"(1) [OF refl _ notfull refl True j] nowin "1.prems" ec [OF j]
            by simp
          then show ?thesis by (rule scoreAtLeast_mono) simp
        qed
        obtain j where "j \<in> set (availableMoves board)" using ne by (cases "availableMoves board") auto
        then show ?thesis
          using child True by (auto simp: bounds_max(1) [OF nowin notfull])
      next
        case False
        have child: "scoreAtLeast (depth - 10) (place board j PlayerX) True (depth + 1)"
          if j: "j \<in> set (availableMoves board)" for j
        proof -
          have "scoreAtLeast (depth + 1 - 10) (place board j PlayerX) True (depth + 1)"
            using "1.IH"(2) [OF refl _ notfull refl False j] nowin "1.prems" ec [OF j]
            by simp
          then show ?thesis by (rule scoreAtLeast_mono) simp
        qed
        then show ?thesis
          using False by (simp add: bounds_min(1) [OF nowin notfull])
      qed
    qed
  qed
qed

lemma emptyCount_le_length: "emptyCount board \<le> length board"
  by (simp add: emptyCount_def)

lemma length_place: "length (place board i p) = length board"
  by (simp add: place_def)

lemma unsafe_move_score:
  assumes unsafe: "allowsForcedWin board m"
  shows "scoreAtMost (- 8) (place board m PlayerO) False 1"
proof -
  let ?next = "place board m PlayerO"
  have nowin: "winner (getWinnerInfo ?next) = None"
    using unsafe by (simp add: allowsForcedWin_def)
  obtain j where j: "j \<in> set (availableMoves ?next)"
    and w: "winner (getWinnerInfo (place ?next j PlayerX)) = Some PlayerX"
    using unsafe by (auto simp: allowsForcedWin_def opponentWinsNext_def)
  have "availableMoves ?next \<noteq> []" using j by auto
  then have notfull: "\<not> isBoardFull ?next" by (rule moves_notFull)
  have "winner (getWinnerInfo (place ?next j PlayerX)) \<noteq> None" using w by simp
  then have "scoreAtMost (- 8) (place ?next j PlayerX) True (0 + 1 + 1)"
    using w by (simp add: bounds_win scoreTerminal_def)
  then have "scoreAtMost (- 8) ?next False (0 + 1)"
    using j unfolding bounds_min(2) [OF nowin notfull] by blast
  then show ?thesis by simp
qed

lemma safe_move_score:
  assumes len: "length board = 9" and nowin: "winner (getWinnerInfo board) = None"
    and m: "m \<in> set (availableMoves board)" and safe: "\<not> allowsForcedWin board m"
  shows "scoreAtLeast (- 7) (place board m PlayerO) False 1"
proof -
  let ?next = "place board m PlayerO"
  have mlen: "m < length board" using m by (simp add: availableMoves_iff)
  have ec1: "int (emptyCount ?next) \<le> 8"
    using emptyCount_place_Suc [of m board PlayerO] m emptyCount_le_length [of board] len
    by (simp add: availableMoves_iff)
  show ?thesis
  proof (cases "winner (getWinnerInfo ?next) = None")
    case False
    then have "winner (getWinnerInfo ?next) = Some PlayerO"
      using winner_after_place [OF nowin mlen, of PlayerO] by auto
    then show ?thesis using False by (simp add: bounds_win scoreTerminal_def)
  next
    case nowin1: True
    then have noX: "\<not> opponentWinsNext ?next"
      using safe by (simp add: allowsForcedWin_def)
    show ?thesis
    proof (cases "isBoardFull ?next")
      case True
      then show ?thesis using nowin1 by (simp add: bounds_full)
    next
      case notfull1: False
      have "scoreAtLeast (- 7) (place ?next j PlayerX) True (1 + 1)"
        if j: "j \<in> set (availableMoves ?next)" for j
      proof -
        let ?b2 = "place ?next j PlayerX"
        have jlen: "j < length ?next" using j by (simp add: availableMoves_iff)
        have ec2: "int (emptyCount ?b2) \<le> 7"
          using emptyCount_place_Suc [of j ?next PlayerX] j ec1
          by (simp add: availableMoves_iff)
        have "winner (getWinnerInfo ?b2) \<noteq> Some PlayerX"
          using noX j by (auto simp: opponentWinsNext_def)
        then have nowin2: "winner (getWinnerInfo ?b2) = None"
          using winner_after_place [OF nowin1 jlen, of PlayerX] by auto
        show ?thesis
        proof (cases "isBoardFull ?b2")
          case True
          then show ?thesis using nowin2 by (simp add: bounds_full)
        next
          case notfull2: False
          then obtain k where k: "k \<in> set (availableMoves ?b2)"
            using notFull_moves [of ?b2] by (cases "availableMoves ?b2") auto
          have ec3: "int (emptyCount (place ?b2 k PlayerO)) \<le> 6"
            using emptyCount_place_Suc [of k ?b2 PlayerO] k ec2
            by (simp add: availableMoves_iff)
          have "scoreAtLeast (3 - 10) (place ?b2 k PlayerO) False 3"
            using ec3 by (intro score_lower_bound) simp_all
          then have "scoreAtLeast (- 7) (place ?b2 k PlayerO) False (1 + 1 + 1)"
            by simp
          then show ?thesis
            using k unfolding bounds_max(1) [OF nowin2 notfull2] by blast
        qed
      qed
      then have "scoreAtLeast (- 7) ?next False (0 + 1)"
        unfolding bounds_min(1) [OF nowin1 notfull1] by simp
      then show ?thesis by simp
    qed
  qed
qed

lemma search_avoids_unsafe_move:
  assumes len: "length board = 9"
    and idx: "index (minimax board True 0) = Some m"
    and alt: "m' \<in> set (availableMoves board)" and safe: "\<not> allowsForcedWin board m'"
  shows "\<not> allowsForcedWin board m"
proof
  assume unsafe: "allowsForcedWin board m"
  have nt: "winner (getWinnerInfo board) = None" "\<not> isBoardFull board"
    using minimax_index_in_moves [OF idx] by simp_all
  from max_node_childScore [OF nt, of 0]
  obtain pre i post where
    r: "minimax board True 0 = \<lparr>score = childScore board True 0 i, index = Some i\<rparr>"
    and all: "\<forall>j\<in>set (availableMoves board).
                  childScore board True 0 j \<le> childScore board True 0 i"
    by blast
  have "i = m" using r idx by simp
  then have "childScore board True 0 m' \<le> childScore board True 0 m"
    using all alt by simp
  moreover have "Fin (- 7) \<le> childScore board True 0 m'"
    using safe_move_score [OF len nt(1) alt safe]
    by (simp add: scoreAtLeast_def childScore_def)
  moreover have "childScore board True 0 m \<le> Fin (- 8)"
    using unsafe_move_score [OF unsafe]
    by (simp add: scoreAtMost_def childScore_def)
  ultimately have "Fin (- 7) \<le> Fin (- 8)" by (meson order_trans)
  then show False by (simp add: Fin_le_iff)
qed

lemma emptyBoard_literal:
  "emptyBoard = [None, None, None, None, None, None, None, None, None]"
  by (simp add: emptyBoard_def numeral_eq_Suc)

lemma opening_never_unsafe: "\<not> allowsForcedWin emptyBoard m"
proof (cases "m < 9")
  case True
  then consider "m = 0" | "m = 1" | "m = 2" | "m = 3" | "m = 4" | "m = 5" | "m = 6"
    | "m = 7" | "m = 8" unfolding less_9_cases by blast
  then show ?thesis
    by cases (simp_all add: allowsForcedWin_def opponentWinsNext_def emptyBoard_literal
        place9 place9_Suc0 ex_moves9 winner9)
next
  case False
  then have "place emptyBoard m PlayerO = emptyBoard"
    unfolding place_def emptyBoard_def by (intro list_update_beyond) simp
  then show ?thesis
    by (simp add: allowsForcedWin_def opponentWinsNext_def emptyBoard_literal
        place9 place9_Suc0 ex_moves9 winner9)
qed

lemma selector_avoids_unsafe_move:
  assumes len: "length board = 9"
    and pick: "pickBestAiMove rnd board = Index m"
    and alt: "m' \<in> set (availableMoves board)" and safe: "\<not> allowsForcedWin board m'"
  shows "\<not> allowsForcedWin board m"
proof (cases "length (availableMoves board) = 9")
  case True
  then have "\<forall>i<9. board ! i = None"
    using all_moves_all_empty [of board] len by simp
  then have "board = emptyBoard"
    using len by (auto simp: emptyBoard_def list_eq_iff_nth_eq)
  then show ?thesis by (simp add: opening_never_unsafe)
next
  case False
  have ne: "availableMoves board \<noteq> []" using alt by auto
  have "index (minimax board True 0) = Some m"
    using pick by (simp add: pickBestAiMove_search [OF ne False] split: option.splits)
  then show ?thesis using len alt safe search_avoids_unsafe_move by blast
qed

lemma lateBoard_pick: "minimax lateBoard True 0 = \<lparr>score = Fin 0, index = Some 6\<rparr>"
  unfolding lateBoard_def
  by (rule max_pick) (simp_all add: evalRules moves9_iff)

lemma columnBoard_pick: "minimax columnBoard True 0 = \<lparr>score = Fin 9, index = Some 7\<rparr>"
  unfolding columnBoard_def
  by (rule max_pick) (simp_all add: evalRules moves9_iff)

text \<open>
  Claim C9.  On the board \<open>[X,O,X, O,X,O, _,_,O]\<close> the selector returns 6.  On the board
  \<open>[X,O,_, X,O,_, _,_,_]\<close> it returns 7, which completes the column \<open>(1, 4, 7)\<close> for
  \<open>O\<close>.  On every 9-cell board, when some available move does not allow the opponent
  a win on the following ply, the move the selector returns does not allow it either.
\<close>

theorem selector_examples_and_safety:
  "pickBestAiMove rnd lateBoard = Index 6
   \<and> pickBestAiMove rnd columnBoard = Index 7
   \<and> getWinnerInfo (place columnBoard 7 PlayerO)
       = \<lparr>winner = Some PlayerO, line = Some (1, 4, 7)\<rparr>
   \<and> (\<forall>board m m'. length board = 9 \<and> pickBestAiMove rnd board = Index m
         \<and> m' \<in> set (availableMoves board) \<and> \<not> allowsForcedWin board m'
         \<longrightarrow> \<not> allowsForcedWin board m)"
proof -
  have late: "pickBestAiMove rnd lateBoard = Index 6"
  proof -
    have "availableMoves lateBoard \<noteq> []" "length (availableMoves lateBoard) \<noteq> 9"
      by (simp_all add: lateBoard_facts)
    then show ?thesis by (simp add: pickBestAiMove_search lateBoard_pick)
  qed
  have col: "pickBestAiMove rnd columnBoard = Index 7"
  proof -
    have "availableMoves columnBoard \<noteq> []" "length (availableMoves columnBoard) \<noteq> 9"
      by (simp_all add: columnBoard_facts)
    then show ?thesis by (simp add: pickBestAiMove_search columnBoard_pick)
  qed
  have win: "getWinnerInfo (place columnBoard 7 PlayerO)
       = \<lparr>winner = Some PlayerO, line = Some (1, 4, 7)\<rparr>"
    by code_simp
  show ?thesis using late col win selector_avoids_unsafe_move by blast
qed

theorem selector_examples_and_safety_witness:
  "length columnBoard = 9 \<and> pickBestAiMove 0 columnBoard = Index 7
   \<and> allowsForcedWin columnBoard 2 \<and> \<not> allowsForcedWin columnBoard 6
   \<and> \<not> allowsForcedWin columnBoard 7"
proof -
  have facts: "length columnBoard = 9" "allowsForcedWin columnBoard 2"
    "6 \<in> set (availableMoves columnBoard)" "\<not> allowsForcedWin columnBoard 6"
    by (simp_all add: columnBoard_def allowsForcedWin_def opponentWinsNext_def
        place9 place9_Suc0 ex_moves9 moves9_iff winner9)
  from selector_examples_and_safety [of 0]
  have pick: "pickBestAiMove 0 columnBoard = Index 7"
    and gen: "\<forall>board m m'. length board = 9 \<and> pickBestAiMove 0 board = Index m
         \<and> m' \<in> set (availableMoves board) \<and> \<not> allowsForcedWin board m'
         \<longrightarrow> \<not> allowsForcedWin board m"
    by blast+
  from gen facts pick have "\<not> allowsForcedWin columnBoard 7" by blast
  then show ?thesis using facts pick by simp
qed


section \<open>Both sides moving by the search\<close>

text \<open>
  A game in which both sides move by the search.  \<open>searchMove\<close> is the move of the
  search for one side, the \<open>index\<close> of \<open>minimax(board, isMaximizing, 0)\<close>, as
  \<open>pickBestAiMove\<close> takes it for \<open>O\<close>.  \<open>selfPlay\<close> stops, as the component does
  (lines 253 and 276), when the evaluator reports a winner or a draw; otherwise the
  side to move places its mark at the index its mover returns.  The fuel bounds the
  number of plies; \<open>None\<close> is a game that did not finish within it, or a mover that
  returned no index.
\<close>

definition searchMove :: "bool \<Rightarrow> board \<Rightarrow> move" where
  "searchMove isMaximizing board =
     (case index (minimax board isMaximizing 0) of
        None \<Rightarrow> Undefined
      | Some i \<Rightarrow> Index i)"

fun selfPlay ::
  "nat \<Rightarrow> (board \<Rightarrow> move) \<Rightarrow> (board \<Rightarrow> move) \<Rightarrow> bool \<Rightarrow> board \<Rightarrow> status option" where
  "selfPlay 0 moveO moveX oToMove board = None"
| "selfPlay (Suc n) moveO moveX oToMove board =
     (case winner (getWinnerInfo board) of
        Some w \<Rightarrow> Some (Wins w)
      | None \<Rightarrow>
          if isDraw board then Some Draw
          else (case (if oToMove then moveO board else moveX board) of
                  Index i \<Rightarrow>
                    selfPlay n moveO moveX (\<not> oToMove)
                      (place board i (if oToMove then PlayerO else PlayerX))
                | Null \<Rightarrow> None
                | Undefined \<Rightarrow> None))"

text \<open>A mover for \<open>O\<close> that is the search on every board that is neither full nor empty.\<close>

definition searchesAfterOpening :: "(board \<Rightarrow> move) \<Rightarrow> bool" where
  "searchesAfterOpening moveO \<longleftrightarrow>
     (\<forall>board. availableMoves board \<noteq> [] \<and> length (availableMoves board) \<noteq> 9
        \<longrightarrow> moveO board = searchMove True board)"

lemma searchesAfterOpening_pick: "searchesAfterOpening (pickBestAiMove rnd)"
  by (simp add: searchesAfterOpening_def searchMove_def pickBestAiMove_search)

lemma searchesAfterOpening_search: "searchesAfterOpening (searchMove True)"
  by (simp add: searchesAfterOpening_def)

lemma selfPlay_draw:
  "winner (getWinnerInfo board) = None \<Longrightarrow> isBoardFull board \<Longrightarrow>
   selfPlay (Suc n) moveO moveX oToMove board = Some Draw"
  by (simp add: isDraw_def)

lemma selfPlay_move:
  assumes "winner (getWinnerInfo board) = None" and "\<not> isBoardFull board"
    and "(if oToMove then moveO board else moveX board) = Index i"
    and "selfPlay n moveO moveX (\<not> oToMove)
           (place board i (if oToMove then PlayerO else PlayerX)) = r"
  shows "selfPlay (Suc n) moveO moveX oToMove board = r"
  using assms by (simp add: isDraw_def)

lemma stepX:
  assumes ply: "minimax board False 0 = \<lparr>score = s, index = Some i\<rparr>"
    and rest: "selfPlay n moveO (searchMove False) True (place board i PlayerX) = r"
  shows "selfPlay (Suc n) moveO (searchMove False) False board = r"
proof -
  have "index (minimax board False 0) = Some i" using ply by simp
  then have nt: "winner (getWinnerInfo board) = None" "\<not> isBoardFull board"
    using minimax_index_in_moves by blast+
  have mv: "(if False then moveO board else searchMove False board) = Index i"
    by (simp add: searchMove_def ply)
  have rest': "selfPlay n moveO (searchMove False) (\<not> False)
      (place board i (if False then PlayerO else PlayerX)) = r"
    using rest by simp
  show ?thesis using nt mv rest' by (rule selfPlay_move)
qed

lemma stepO:
  assumes ok: "searchesAfterOpening moveO"
    and ply: "minimax board True 0 = \<lparr>score = s, index = Some i\<rparr>"
    and n9: "length (availableMoves board) \<noteq> 9"
    and rest: "selfPlay n moveO moveX False (place board i PlayerO) = r"
  shows "selfPlay (Suc n) moveO moveX True board = r"
proof -
  have "index (minimax board True 0) = Some i" using ply by simp
  then have nt: "winner (getWinnerInfo board) = None" "\<not> isBoardFull board"
    using minimax_index_in_moves by blast+
  have "availableMoves board \<noteq> []" using nt(2) by (rule notFull_moves)
  then have "moveO board = Index i"
    using ok n9 ply by (simp add: searchesAfterOpening_def searchMove_def)
  then have mv: "(if True then moveO board else moveX board) = Index i"
    by simp
  have rest': "selfPlay n moveO moveX (\<not> True)
      (place board i (if True then PlayerO else PlayerX)) = r"
    using rest by simp
  show ?thesis using nt mv rest' by (rule selfPlay_move)
qed

lemma moves9_length:
  "length (availableMoves [a, b, c, d, e, f, g, h, i]) = 9 \<longleftrightarrow>
     a = None \<and> b = None \<and> c = None \<and> d = None \<and> e = None \<and> f = None \<and> g = None
   \<and> h = None \<and> i = None"
proof
  assume "length (availableMoves [a, b, c, d, e, f, g, h, i]) = 9"
  then have "length (availableMoves [a, b, c, d, e, f, g, h, i])
      = length [a, b, c, d, e, f, g, h, i]" by simp
  then have "\<forall>j<9. [a, b, c, d, e, f, g, h, i] ! j = None"
    using all_moves_all_empty [of "[a, b, c, d, e, f, g, h, i]"] by simp
  then show "a = None \<and> b = None \<and> c = None \<and> d = None \<and> e = None \<and> f = None \<and> g = None
   \<and> h = None \<and> i = None"
    unfolding all_less_9 nth9 .
next
  assume "a = None \<and> b = None \<and> c = None \<and> d = None \<and> e = None \<and> f = None \<and> g = None
   \<and> h = None \<and> i = None"
  then have "[a, b, c, d, e, f, g, h, i] = emptyBoard"
    by (simp add: emptyBoard_def numeral_eq_Suc)
  then show "length (availableMoves [a, b, c, d, e, f, g, h, i]) = 9"
    by (simp add: availableMoves_emptyBoard)
qed

lemma lineX_ply0:
  "minimax [None, None, None, None, None, None, None, None, None]
     False 0 = \<lparr>score = Fin 0, index = Some 0\<rparr>"
  by (rule min_pick) (simp_all add: evalRules moves9_iff)

lemma lineX_ply1:
  "minimax [Some PlayerX, None, None, None, None, None, None, None, None]
     True 0 = \<lparr>score = Fin 0, index = Some 4\<rparr>"
  by (rule max_pick) (simp_all add: evalRules moves9_iff)

lemma lineX_ply2:
  "minimax [Some PlayerX, None, None, None, Some PlayerO, None, None, None, None]
     False 0 = \<lparr>score = Fin 0, index = Some 1\<rparr>"
  by (rule min_pick) (simp_all add: evalRules moves9_iff)

lemma lineX_ply3:
  "minimax [Some PlayerX, Some PlayerX, None, None, Some PlayerO, None, None, None, None]
     True 0 = \<lparr>score = Fin 0, index = Some 2\<rparr>"
  by (rule max_pick) (simp_all add: evalRules moves9_iff)

lemma lineX_ply4:
  "minimax [Some PlayerX, Some PlayerX, Some PlayerO, None, Some PlayerO, None, None, None, None]
     False 0 = \<lparr>score = Fin 0, index = Some 6\<rparr>"
  by (rule min_pick) (simp_all add: evalRules moves9_iff)

lemma lineX_ply5:
  "minimax [Some PlayerX, Some PlayerX, Some PlayerO, None, Some PlayerO, None, Some PlayerX, None, None]
     True 0 = \<lparr>score = Fin 0, index = Some 3\<rparr>"
  by (rule max_pick) (simp_all add: evalRules moves9_iff)

lemma lineX_ply6:
  "minimax [Some PlayerX, Some PlayerX, Some PlayerO, Some PlayerO, Some PlayerO, None, Some PlayerX, None, None]
     False 0 = \<lparr>score = Fin 0, index = Some 5\<rparr>"
  by (rule min_pick) (simp_all add: evalRules moves9_iff)

lemma lineX_ply7:
  "minimax [Some PlayerX, Some PlayerX, Some PlayerO, Some PlayerO, Some PlayerO, Some PlayerX, Some PlayerX, None, None]
     True 0 = \<lparr>score = Fin 0, index = Some 7\<rparr>"
  by (rule max_pick) (simp_all add: evalRules moves9_iff)

lemma lineX_ply8:
  "minimax [Some PlayerX, Some PlayerX, Some PlayerO, Some PlayerO, Some PlayerO, Some PlayerX, Some PlayerX, Some PlayerO, None]
     False 0 = \<lparr>score = Fin 0, index = Some 8\<rparr>"
  by (rule min_pick) (simp_all add: evalRules moves9_iff)

lemma lineX:
  assumes ok: "searchesAfterOpening moveO"
  shows "selfPlay (Suc (Suc (Suc (Suc (Suc (Suc (Suc (Suc (Suc (Suc n)))))))))) moveO (searchMove False) False
     [None, None, None, None, None, None, None, None, None] = Some Draw"
  apply (rule stepX [OF lineX_ply0])
  apply (simp only: place9)
  apply (rule stepO [OF ok lineX_ply1])
   apply (simp add: moves9_length)
  apply (simp only: place9)
  apply (rule stepX [OF lineX_ply2])
  apply (simp only: place9)
  apply (rule stepO [OF ok lineX_ply3])
   apply (simp add: moves9_length)
  apply (simp only: place9)
  apply (rule stepX [OF lineX_ply4])
  apply (simp only: place9)
  apply (rule stepO [OF ok lineX_ply5])
   apply (simp add: moves9_length)
  apply (simp only: place9)
  apply (rule stepX [OF lineX_ply6])
  apply (simp only: place9)
  apply (rule stepO [OF ok lineX_ply7])
   apply (simp add: moves9_length)
  apply (simp only: place9)
  apply (rule stepX [OF lineX_ply8])
  apply (simp only: place9)
  apply (rule selfPlay_draw)
   apply (simp_all add: winner9 full9)
  done

lemma lineO4_ply0:
  "minimax [None, None, None, None, Some PlayerO, None, None, None, None]
     False 0 = \<lparr>score = Fin 0, index = Some 0\<rparr>"
  by (rule min_pick) (simp_all add: evalRules moves9_iff)

lemma lineO4_ply1:
  "minimax [Some PlayerX, None, None, None, Some PlayerO, None, None, None, None]
     True 0 = \<lparr>score = Fin 0, index = Some 1\<rparr>"
  by (rule max_pick) (simp_all add: evalRules moves9_iff)

lemma lineO4_ply2:
  "minimax [Some PlayerX, Some PlayerO, None, None, Some PlayerO, None, None, None, None]
     False 0 = \<lparr>score = Fin 0, index = Some 7\<rparr>"
  by (rule min_pick) (simp_all add: evalRules moves9_iff)

lemma lineO4_ply3:
  "minimax [Some PlayerX, Some PlayerO, None, None, Some PlayerO, None, None, Some PlayerX, None]
     True 0 = \<lparr>score = Fin 0, index = Some 3\<rparr>"
  by (rule max_pick) (simp_all add: evalRules moves9_iff)

lemma lineO4_ply4:
  "minimax [Some PlayerX, Some PlayerO, None, Some PlayerO, Some PlayerO, None, None, Some PlayerX, None]
     False 0 = \<lparr>score = Fin 0, index = Some 5\<rparr>"
  by (rule min_pick) (simp_all add: evalRules moves9_iff)

lemma lineO4_ply5:
  "minimax [Some PlayerX, Some PlayerO, None, Some PlayerO, Some PlayerO, Some PlayerX, None, Some PlayerX, None]
     True 0 = \<lparr>score = Fin 0, index = Some 2\<rparr>"
  by (rule max_pick) (simp_all add: evalRules moves9_iff)

lemma lineO4_ply6:
  "minimax [Some PlayerX, Some PlayerO, Some PlayerO, Some PlayerO, Some PlayerO, Some PlayerX, None, Some PlayerX, None]
     False 0 = \<lparr>score = Fin 0, index = Some 6\<rparr>"
  by (rule min_pick) (simp_all add: evalRules moves9_iff)

lemma lineO4_ply7:
  "minimax [Some PlayerX, Some PlayerO, Some PlayerO, Some PlayerO, Some PlayerO, Some PlayerX, Some PlayerX, Some PlayerX, None]
     True 0 = \<lparr>score = Fin 0, index = Some 8\<rparr>"
  by (rule max_pick) (simp_all add: evalRules moves9_iff)

lemma lineO4:
  assumes ok: "searchesAfterOpening moveO"
  shows "selfPlay (Suc (Suc (Suc (Suc (Suc (Suc (Suc (Suc (Suc n))))))))) moveO (searchMove False) False
     [None, None, None, None, Some PlayerO, None, None, None, None] = Some Draw"
  apply (rule stepX [OF lineO4_ply0])
  apply (simp only: place9)
  apply (rule stepO [OF ok lineO4_ply1])
   apply (simp add: moves9_length)
  apply (simp only: place9)
  apply (rule stepX [OF lineO4_ply2])
  apply (simp only: place9)
  apply (rule stepO [OF ok lineO4_ply3])
   apply (simp add: moves9_length)
  apply (simp only: place9)
  apply (rule stepX [OF lineO4_ply4])
  apply (simp only: place9)
  apply (rule stepO [OF ok lineO4_ply5])
   apply (simp add: moves9_length)
  apply (simp only: place9)
  apply (rule stepX [OF lineO4_ply6])
  apply (simp only: place9)
  apply (rule stepO [OF ok lineO4_ply7])
   apply (simp add: moves9_length)
  apply (simp only: place9)
  apply (rule selfPlay_draw)
   apply (simp_all add: winner9 full9)
  done

lemma lineO0_ply0:
  "minimax [Some PlayerO, None, None, None, None, None, None, None, None]
     False 0 = \<lparr>score = Fin 0, index = Some 4\<rparr>"
  by (rule min_pick) (simp_all add: evalRules moves9_iff)

lemma lineO0_ply1:
  "minimax [Some PlayerO, None, None, None, Some PlayerX, None, None, None, None]
     True 0 = \<lparr>score = Fin 0, index = Some 1\<rparr>"
  by (rule max_pick) (simp_all add: evalRules moves9_iff)

lemma lineO0_ply2:
  "minimax [Some PlayerO, Some PlayerO, None, None, Some PlayerX, None, None, None, None]
     False 0 = \<lparr>score = Fin 0, index = Some 2\<rparr>"
  by (rule min_pick) (simp_all add: evalRules moves9_iff)

lemma lineO0_ply3:
  "minimax [Some PlayerO, Some PlayerO, Some PlayerX, None, Some PlayerX, None, None, None, None]
     True 0 = \<lparr>score = Fin 0, index = Some 6\<rparr>"
  by (rule max_pick) (simp_all add: evalRules moves9_iff)

lemma lineO0_ply4:
  "minimax [Some PlayerO, Some PlayerO, Some PlayerX, None, Some PlayerX, None, Some PlayerO, None, None]
     False 0 = \<lparr>score = Fin 0, index = Some 3\<rparr>"
  by (rule min_pick) (simp_all add: evalRules moves9_iff)

lemma lineO0_ply5:
  "minimax [Some PlayerO, Some PlayerO, Some PlayerX, Some PlayerX, Some PlayerX, None, Some PlayerO, None, None]
     True 0 = \<lparr>score = Fin 0, index = Some 5\<rparr>"
  by (rule max_pick) (simp_all add: evalRules moves9_iff)

lemma lineO0_ply6:
  "minimax [Some PlayerO, Some PlayerO, Some PlayerX, Some PlayerX, Some PlayerX, Some PlayerO, Some PlayerO, None, None]
     False 0 = \<lparr>score = Fin 0, index = Some 7\<rparr>"
  by (rule min_pick) (simp_all add: evalRules moves9_iff)

lemma lineO0_ply7:
  "minimax [Some PlayerO, Some PlayerO, Some PlayerX, Some PlayerX, Some PlayerX, Some PlayerO, Some PlayerO, Some PlayerX, None]
     True 0 = \<lparr>score = Fin 0, index = Some 8\<rparr>"
  by (rule max_pick) (simp_all add: evalRules moves9_iff)

lemma lineO0:
  assumes ok: "searchesAfterOpening moveO"
  shows "selfPlay (Suc (Suc (Suc (Suc (Suc (Suc (Suc (Suc (Suc n))))))))) moveO (searchMove False) False
     [Some PlayerO, None, None, None, None, None, None, None, None] = Some Draw"
  apply (rule stepX [OF lineO0_ply0])
  apply (simp only: place9)
  apply (rule stepO [OF ok lineO0_ply1])
   apply (simp add: moves9_length)
  apply (simp only: place9)
  apply (rule stepX [OF lineO0_ply2])
  apply (simp only: place9)
  apply (rule stepO [OF ok lineO0_ply3])
   apply (simp add: moves9_length)
  apply (simp only: place9)
  apply (rule stepX [OF lineO0_ply4])
  apply (simp only: place9)
  apply (rule stepO [OF ok lineO0_ply5])
   apply (simp add: moves9_length)
  apply (simp only: place9)
  apply (rule stepX [OF lineO0_ply6])
  apply (simp only: place9)
  apply (rule stepO [OF ok lineO0_ply7])
   apply (simp add: moves9_length)
  apply (simp only: place9)
  apply (rule selfPlay_draw)
   apply (simp_all add: winner9 full9)
  done

lemma lineO2_ply0:
  "minimax [None, None, Some PlayerO, None, None, None, None, None, None]
     False 0 = \<lparr>score = Fin 0, index = Some 4\<rparr>"
  by (rule min_pick) (simp_all add: evalRules moves9_iff)

lemma lineO2_ply1:
  "minimax [None, None, Some PlayerO, None, Some PlayerX, None, None, None, None]
     True 0 = \<lparr>score = Fin 0, index = Some 0\<rparr>"
  by (rule max_pick) (simp_all add: evalRules moves9_iff)

lemma lineO2_ply2:
  "minimax [Some PlayerO, None, Some PlayerO, None, Some PlayerX, None, None, None, None]
     False 0 = \<lparr>score = Fin 0, index = Some 1\<rparr>"
  by (rule min_pick) (simp_all add: evalRules moves9_iff)

lemma lineO2_ply3:
  "minimax [Some PlayerO, Some PlayerX, Some PlayerO, None, Some PlayerX, None, None, None, None]
     True 0 = \<lparr>score = Fin 0, index = Some 7\<rparr>"
  by (rule max_pick) (simp_all add: evalRules moves9_iff)

lemma lineO2_ply4:
  "minimax [Some PlayerO, Some PlayerX, Some PlayerO, None, Some PlayerX, None, None, Some PlayerO, None]
     False 0 = \<lparr>score = Fin 0, index = Some 3\<rparr>"
  by (rule min_pick) (simp_all add: evalRules moves9_iff)

lemma lineO2_ply5:
  "minimax [Some PlayerO, Some PlayerX, Some PlayerO, Some PlayerX, Some PlayerX, None, None, Some PlayerO, None]
     True 0 = \<lparr>score = Fin 0, index = Some 5\<rparr>"
  by (rule max_pick) (simp_all add: evalRules moves9_iff)

lemma lineO2_ply6:
  "minimax [Some PlayerO, Some PlayerX, Some PlayerO, Some PlayerX, Some PlayerX, Some PlayerO, None, Some PlayerO, None]
     False 0 = \<lparr>score = Fin 0, index = Some 8\<rparr>"
  by (rule min_pick) (simp_all add: evalRules moves9_iff)

lemma lineO2_ply7:
  "minimax [Some PlayerO, Some PlayerX, Some PlayerO, Some PlayerX, Some PlayerX, Some PlayerO, None, Some PlayerO, Some PlayerX]
     True 0 = \<lparr>score = Fin 0, index = Some 6\<rparr>"
  by (rule max_pick) (simp_all add: evalRules moves9_iff)

lemma lineO2:
  assumes ok: "searchesAfterOpening moveO"
  shows "selfPlay (Suc (Suc (Suc (Suc (Suc (Suc (Suc (Suc (Suc n))))))))) moveO (searchMove False) False
     [None, None, Some PlayerO, None, None, None, None, None, None] = Some Draw"
  apply (rule stepX [OF lineO2_ply0])
  apply (simp only: place9)
  apply (rule stepO [OF ok lineO2_ply1])
   apply (simp add: moves9_length)
  apply (simp only: place9)
  apply (rule stepX [OF lineO2_ply2])
  apply (simp only: place9)
  apply (rule stepO [OF ok lineO2_ply3])
   apply (simp add: moves9_length)
  apply (simp only: place9)
  apply (rule stepX [OF lineO2_ply4])
  apply (simp only: place9)
  apply (rule stepO [OF ok lineO2_ply5])
   apply (simp add: moves9_length)
  apply (simp only: place9)
  apply (rule stepX [OF lineO2_ply6])
  apply (simp only: place9)
  apply (rule stepO [OF ok lineO2_ply7])
   apply (simp add: moves9_length)
  apply (simp only: place9)
  apply (rule selfPlay_draw)
   apply (simp_all add: winner9 full9)
  done

lemma lineO6_ply0:
  "minimax [None, None, None, None, None, None, Some PlayerO, None, None]
     False 0 = \<lparr>score = Fin 0, index = Some 4\<rparr>"
  by (rule min_pick) (simp_all add: evalRules moves9_iff)

lemma lineO6_ply1:
  "minimax [None, None, None, None, Some PlayerX, None, Some PlayerO, None, None]
     True 0 = \<lparr>score = Fin 0, index = Some 0\<rparr>"
  by (rule max_pick) (simp_all add: evalRules moves9_iff)

lemma lineO6_ply2:
  "minimax [Some PlayerO, None, None, None, Some PlayerX, None, Some PlayerO, None, None]
     False 0 = \<lparr>score = Fin 0, index = Some 3\<rparr>"
  by (rule min_pick) (simp_all add: evalRules moves9_iff)

lemma lineO6_ply3:
  "minimax [Some PlayerO, None, None, Some PlayerX, Some PlayerX, None, Some PlayerO, None, None]
     True 0 = \<lparr>score = Fin 0, index = Some 5\<rparr>"
  by (rule max_pick) (simp_all add: evalRules moves9_iff)

lemma lineO6_ply4:
  "minimax [Some PlayerO, None, None, Some PlayerX, Some PlayerX, Some PlayerO, Some PlayerO, None, None]
     False 0 = \<lparr>score = Fin 0, index = Some 1\<rparr>"
  by (rule min_pick) (simp_all add: evalRules moves9_iff)

lemma lineO6_ply5:
  "minimax [Some PlayerO, Some PlayerX, None, Some PlayerX, Some PlayerX, Some PlayerO, Some PlayerO, None, None]
     True 0 = \<lparr>score = Fin 0, index = Some 7\<rparr>"
  by (rule max_pick) (simp_all add: evalRules moves9_iff)

lemma lineO6_ply6:
  "minimax [Some PlayerO, Some PlayerX, None, Some PlayerX, Some PlayerX, Some PlayerO, Some PlayerO, Some PlayerO, None]
     False 0 = \<lparr>score = Fin 0, index = Some 8\<rparr>"
  by (rule min_pick) (simp_all add: evalRules moves9_iff)

lemma lineO6_ply7:
  "minimax [Some PlayerO, Some PlayerX, None, Some PlayerX, Some PlayerX, Some PlayerO, Some PlayerO, Some PlayerO, Some PlayerX]
     True 0 = \<lparr>score = Fin 0, index = Some 2\<rparr>"
  by (rule max_pick) (simp_all add: evalRules moves9_iff)

lemma lineO6:
  assumes ok: "searchesAfterOpening moveO"
  shows "selfPlay (Suc (Suc (Suc (Suc (Suc (Suc (Suc (Suc (Suc n))))))))) moveO (searchMove False) False
     [None, None, None, None, None, None, Some PlayerO, None, None] = Some Draw"
  apply (rule stepX [OF lineO6_ply0])
  apply (simp only: place9)
  apply (rule stepO [OF ok lineO6_ply1])
   apply (simp add: moves9_length)
  apply (simp only: place9)
  apply (rule stepX [OF lineO6_ply2])
  apply (simp only: place9)
  apply (rule stepO [OF ok lineO6_ply3])
   apply (simp add: moves9_length)
  apply (simp only: place9)
  apply (rule stepX [OF lineO6_ply4])
  apply (simp only: place9)
  apply (rule stepO [OF ok lineO6_ply5])
   apply (simp add: moves9_length)
  apply (simp only: place9)
  apply (rule stepX [OF lineO6_ply6])
  apply (simp only: place9)
  apply (rule stepO [OF ok lineO6_ply7])
   apply (simp add: moves9_length)
  apply (simp only: place9)
  apply (rule selfPlay_draw)
   apply (simp_all add: winner9 full9)
  done

lemma lineO_ply0:
  "minimax [None, None, None, None, None, None, None, None, None]
     True 0 = \<lparr>score = Fin 0, index = Some 0\<rparr>"
  by (rule max_pick) (simp_all add: evalRules moves9_iff)


lemma opening_cases:
  assumes "0 \<le> rnd" and "rnd < 1"
  shows "pickBestAiMove rnd emptyBoard = Index 4 \<or> pickBestAiMove rnd emptyBoard = Index 0
       \<or> pickBestAiMove rnd emptyBoard = Index 2 \<or> pickBestAiMove rnd emptyBoard = Index 6"
proof -
  have k: "0 \<le> \<lfloor>mulDouble rnd 3\<rfloor> \<and> \<lfloor>mulDouble rnd 3\<rfloor> \<le> 3"
    using assms by (rule floor_mulDouble_3_range)
  then have "0 \<le> \<lfloor>mulDouble rnd 3\<rfloor> \<and> \<lfloor>mulDouble rnd 3\<rfloor> < 9" by linarith
  then have pick: "pickBestAiMove rnd emptyBoard = Index (preferred ! nat \<lfloor>mulDouble rnd 3\<rfloor>)"
    by (simp only: pickBestAiMove_opening [OF availableMoves_emptyBoard] simp_thms if_True)
  have "\<lfloor>mulDouble rnd 3\<rfloor> = 0 \<or> \<lfloor>mulDouble rnd 3\<rfloor> = 1 \<or> \<lfloor>mulDouble rnd 3\<rfloor> = 2
      \<or> \<lfloor>mulDouble rnd 3\<rfloor> = 3"
    using k by linarith
  then show ?thesis unfolding pick by (auto simp: preferred_def)
qed

lemma emptyBoard_selfPlay_O:
  assumes mv: "moveO emptyBoard = Index k"
    and rest: "selfPlay n moveO moveX False (place [None, None, None, None, None, None, None, None, None] k PlayerO) = r"
  shows "selfPlay (Suc n) moveO moveX True emptyBoard = r"
proof -
  have nt: "winner (getWinnerInfo emptyBoard) = None" "\<not> isBoardFull emptyBoard"
    unfolding emptyBoard_literal by (simp_all add: winner9 full9)
  have mv': "(if True then moveO emptyBoard else moveX emptyBoard) = Index k"
    using mv by simp
  have rest': "selfPlay n moveO moveX (\<not> True)
      (place emptyBoard k (if True then PlayerO else PlayerX)) = r"
    using rest by (simp add: emptyBoard_literal)
  show ?thesis using nt mv' rest' by (rule selfPlay_move)
qed

text \<open>
  Claim C7.  From the empty board, with enough fuel for the nine plies, the game ends
  in a draw whenever both sides move by the search: with \<open>X\<close> to move first and with
  \<open>O\<close> to move first, and with \<open>O\<close> moving by the selector \<open>pickBestAiMove\<close> (whose
  opening move on the empty board is drawn by the random number) or by the search
  alone.  No side wins.  The random number ranges over the reals of \<open>[0, 1)\<close>, the
  binary64 values among them.
\<close>

theorem search_selfplay_draws:
  assumes r0: "0 \<le> rnd" and r1: "rnd < 1" and fuel: "10 \<le> n"
  shows "selfPlay n (pickBestAiMove rnd) (searchMove False) False emptyBoard = Some Draw
       \<and> selfPlay n (pickBestAiMove rnd) (searchMove False) True emptyBoard = Some Draw
       \<and> selfPlay n (searchMove True) (searchMove False) False emptyBoard = Some Draw
       \<and> selfPlay n (searchMove True) (searchMove False) True emptyBoard = Some Draw"
proof -
  define m where "m = n - 10"
  have n: "n = Suc (Suc (Suc (Suc (Suc (Suc (Suc (Suc (Suc (Suc m)))))))))" using fuel by (simp add: m_def)
  have okP: "searchesAfterOpening (pickBestAiMove rnd)" by (rule searchesAfterOpening_pick)
  have okS: "searchesAfterOpening (searchMove True)" by (rule searchesAfterOpening_search)
  have x1: "selfPlay n (pickBestAiMove rnd) (searchMove False) False emptyBoard = Some Draw"
    unfolding n emptyBoard_literal using okP by (rule lineX)
  have x2: "selfPlay n (searchMove True) (searchMove False) False emptyBoard = Some Draw"
    unfolding n emptyBoard_literal using okS by (rule lineX)
  have o1: "selfPlay n (pickBestAiMove rnd) (searchMove False) True emptyBoard = Some Draw"
  proof -
    from opening_cases [OF r0 r1]
    consider "pickBestAiMove rnd emptyBoard = Index 4"
      | "pickBestAiMove rnd emptyBoard = Index 0"
      | "pickBestAiMove rnd emptyBoard = Index 2"
      | "pickBestAiMove rnd emptyBoard = Index 6" by blast
    then show ?thesis
    proof cases
      case 1
      have "selfPlay (Suc (Suc (Suc (Suc (Suc (Suc (Suc (Suc (Suc m))))))))) (pickBestAiMove rnd) (searchMove False) False
          (place [None, None, None, None, None, None, None, None, None] 4 PlayerO) = Some Draw"
        unfolding place9 using okP by (rule lineO4)
      with 1 show ?thesis unfolding n by (rule emptyBoard_selfPlay_O)
    next
      case 2
      have "selfPlay (Suc (Suc (Suc (Suc (Suc (Suc (Suc (Suc (Suc m))))))))) (pickBestAiMove rnd) (searchMove False) False
          (place [None, None, None, None, None, None, None, None, None] 0 PlayerO) = Some Draw"
        unfolding place9 using okP by (rule lineO0)
      with 2 show ?thesis unfolding n by (rule emptyBoard_selfPlay_O)
    next
      case 3
      have "selfPlay (Suc (Suc (Suc (Suc (Suc (Suc (Suc (Suc (Suc m))))))))) (pickBestAiMove rnd) (searchMove False) False
          (place [None, None, None, None, None, None, None, None, None] 2 PlayerO) = Some Draw"
        unfolding place9 using okP by (rule lineO2)
      with 3 show ?thesis unfolding n by (rule emptyBoard_selfPlay_O)
    next
      case 4
      have "selfPlay (Suc (Suc (Suc (Suc (Suc (Suc (Suc (Suc (Suc m))))))))) (pickBestAiMove rnd) (searchMove False) False
          (place [None, None, None, None, None, None, None, None, None] 6 PlayerO) = Some Draw"
        unfolding place9 using okP by (rule lineO6)
      with 4 show ?thesis unfolding n by (rule emptyBoard_selfPlay_O)
    qed
  qed
  have o2: "selfPlay n (searchMove True) (searchMove False) True emptyBoard = Some Draw"
  proof -
    have mv: "searchMove True emptyBoard = Index 0"
      by (simp add: searchMove_def emptyBoard_literal lineO_ply0)
    have "selfPlay (Suc (Suc (Suc (Suc (Suc (Suc (Suc (Suc (Suc m))))))))) (searchMove True) (searchMove False) False
          (place [None, None, None, None, None, None, None, None, None] 0 PlayerO) = Some Draw"
      unfolding place9 using okS by (rule lineO0)
    with mv show ?thesis unfolding n by (rule emptyBoard_selfPlay_O)
  qed
  show ?thesis using x1 o1 x2 o2 by simp
qed

theorem search_selfplay_draws_witness:
  "(0::real) \<le> 1 / 2 \<and> (1 / 2 :: real) < 1 \<and> (10::nat) \<le> 10
   \<and> selfPlay 10 (pickBestAiMove (1 / 2)) (searchMove False) False emptyBoard = Some Draw
   \<and> selfPlay 10 (pickBestAiMove (1 / 2)) (searchMove False) True emptyBoard = Some Draw"
proof -
  have h: "(0::real) \<le> 1 / 2" "(1 / 2 :: real) < 1" "(10::nat) \<le> 10" by simp_all
  from search_selfplay_draws [OF h] h show ?thesis by simp
qed

end
